theory Spec2Isabelle
  imports Main
begin

section \<open>Data model of \<^verbatim>\<open>pipeline.ts\<close>\<close>

text \<open>
  Objects that the TypeScript code creates with \<^verbatim>\<open>new\<close> and then shares by reference
  (pipelines, stages, publishing actions, roles, artifacts, stack outputs) live in typed
  object tables of a \<open>World\<close>. A reference is the index of the object in its table;
  \<^verbatim>\<open>new\<close> appends to the table, so every allocation yields a reference that was never
  handed out before, and two references are the same object exactly when they are equal.

  A JavaScript \<^verbatim>\<open>Record<string, T>\<close> whose keys are enumerated is an association list in
  insertion order (keys are only ever added when absent). The registry of output
  artifacts is keyed by the artifact ids of stacks, which follow names that the user
  chooses: a read of it also finds the members that a plain object inherits from
  \<^verbatim>\<open>Object.prototype\<close>. The registry of publishers is keyed by asset ids, which are
  content hashes, and the registry of roles by the two asset types; such names do not
  occur there. The numeric ordering of integer-like keys in \<^verbatim>\<open>Object.keys\<close> is outside
  the model. Run orders and counters are JavaScript numbers that hold integers; they are
  modelled by \<open>int\<close> and \<open>nat\<close>.

  An \<open>error\<close> is what a call throws: an \<^verbatim>\<open>Error\<close> that the code creates, or a
  \<^verbatim>\<open>TypeError\<close> of the language.
\<close>

type_synonym ref = nat

datatype error = Error string | TypeError string

datatype AssetType = FILE | DOCKER_IMAGE

record DeployCdkStackAction =
  stackName :: string
  stackArtifactId :: string
  dependencyStackArtifactIds :: "string list"
  prepareRunOrder :: int
  executeRunOrder :: int

datatype Action =
    DeployCdkStack DeployCdkStackAction
  | PublishAssets ref
  | UpdatePipeline ref string "string option" "string option"
  | OtherAction string

record Stage =
  stageName :: string
  actions :: "Action list"

record PublishAssetsAction =
  actionName :: string
  actionInput :: ref
  actionCliVersion :: "string option"
  actionAssetType :: AssetType
  role :: "ref option"
  commands :: "(string \<times> string) list"

datatype Resource = Literal string | FormatArn string string string string

record PolicyStatement =
  resources :: "Resource list"
  policyActions :: "string list"

record Role =
  roleId :: string
  statements :: "PolicyStatement list"
  artifactBucketRead :: bool

record Artifact =
  artifactName :: "string option"

record StackOutput =
  artifactFile :: "ref \<times> string"
  outputName :: string

record World =
  cwd :: string
  pipelineObjs :: "ref list list"
  stageObjs :: "Stage list"
  publishObjs :: "PublishAssetsAction list"
  roleObjs :: "Role list"
  artifactObjs :: "Artifact list"
  stackOutputObjs :: "StackOutput list"

record AssetPublishingCommand =
  assetManifestPath :: string
  assetId :: string
  assetSelector :: string
  assetType :: AssetType

record AssetPublishing =
  publishers :: "(string \<times> ref) list"
  assetRoles :: "AssetType \<Rightarrow> ref option"
  myCxAsmRoot :: string
  stage :: ref
  pipeline :: ref
  fileAssetCtr :: nat
  dockerAssetCtr :: nat
  cloudAssemblyInput :: ref
  publishCliVersion :: "string option"
  projectName :: "string option"

record CfnOutput =
  outputStackArtifactId :: string
  logicalId :: string

record CdkPipelineProps =
  sourceAction :: "Action option"
  synthAction :: "Action option"
  cloudAssemblyArtifact :: ref
  codePipeline :: "ref option"
  pipelineName :: "string option"
  cdkCliVersion :: "string option"

record CdkPipeline =
  thePipeline :: ref
  assets :: AssetPublishing
  outputArtifacts :: "(string \<times> ref) list"
  assemblyArtifact :: ref

text \<open>The environment of the constructor: whether the construct tree's root is an
  \<^verbatim>\<open>App\<close>, the assembly builder's output directory and the pipeline stack's name.\<close>

record Scope =
  rootIsApp :: bool
  outdir :: string
  pipelineStackName :: string

section \<open>Strings and paths\<close>

definition quoted :: "string \<Rightarrow> string" where
  "quoted s = [CHR 0x27] @ s @ [CHR 0x27]"

definition startsWith :: "string \<Rightarrow> string \<Rightarrow> bool" where
  "startsWith s p = (take (length p) s = p)"

definition digitChar :: "nat \<Rightarrow> char" where
  "digitChar d = ''0123456789'' ! d"

text \<open>A template literal renders a counter in decimal.\<close>

function decimal :: "nat \<Rightarrow> string" where
  "decimal n = (if n < 10 then [digitChar n] else decimal (n div 10) @ [digitChar (n mod 10)])"
  by pat_completeness auto

termination
  by (relation "measure id") auto

declare decimal.simps [simp del]

text \<open>
  Node's \<^verbatim>\<open>path\<close> module, POSIX flavour (\<^verbatim>\<open>path.sep\<close> is \<^verbatim>\<open>/\<close>). \<^verbatim>\<open>path.resolve\<close>
  makes a path absolute against the working directory and normalises it: empty and
  \<^verbatim>\<open>.\<close> segments vanish, \<^verbatim>\<open>..\<close> drops the segment before it (and stays at the root).
  \<^verbatim>\<open>path.relative(from, to)\<close> resolves both, skips their common leading segments, climbs
  out of what is left of \<^verbatim>\<open>from\<close> with one \<^verbatim>\<open>..\<close> per segment and descends into what is
  left of \<^verbatim>\<open>to\<close>.
\<close>

fun splitPath :: "string \<Rightarrow> string list" where
  "splitPath [] = [[]]"
| "splitPath (c # cs) =
     (if c = CHR ''/'' then [] # splitPath cs
      else (case splitPath cs of [] \<Rightarrow> [[c]] | s # ss \<Rightarrow> (c # s) # ss))"

fun normalizeSegments :: "string list \<Rightarrow> string list \<Rightarrow> string list" where
  "normalizeSegments acc [] = acc"
| "normalizeSegments acc (s # ss) =
     (if s = [] \<or> s = ''.'' then normalizeSegments acc ss
      else if s = ''..'' then normalizeSegments (butlast acc) ss
      else normalizeSegments (acc @ [s]) ss)"

definition isAbsolute :: "string \<Rightarrow> bool" where
  "isAbsolute p = (case p of [] \<Rightarrow> False | c # _ \<Rightarrow> c = CHR ''/'')"

definition resolveSegments :: "string \<Rightarrow> string \<Rightarrow> string list" where
  "resolveSegments wd p =
     normalizeSegments [] (if isAbsolute p then splitPath p else splitPath wd @ splitPath p)"

fun joinPath :: "string list \<Rightarrow> string" where
  "joinPath [] = []"
| "joinPath [s] = s"
| "joinPath (s # t # ss) = s @ ''/'' @ joinPath (t # ss)"

definition pathResolve :: "string \<Rightarrow> string \<Rightarrow> string" where
  "pathResolve wd p = CHR ''/'' # joinPath (resolveSegments wd p)"

fun commonLength :: "string list \<Rightarrow> string list \<Rightarrow> nat" where
  "commonLength (x # xs) (y # ys) = (if x = y then Suc (commonLength xs ys) else 0)"
| "commonLength [] ys = 0"
| "commonLength xs [] = 0"

definition pathRelative :: "string \<Rightarrow> string \<Rightarrow> string \<Rightarrow> string" where
  "pathRelative wd from to =
     (let f = resolveSegments wd from;
          t = resolveSegments wd to;
          n = commonLength f t
      in joinPath (replicate (length f - n) ''..'' @ drop n t))"

text \<open>A resolved path lies within a resolved root when the root's segments lead it.\<close>

definition withinRoot :: "string \<Rightarrow> string \<Rightarrow> string \<Rightarrow> bool" where
  "withinRoot wd root p =
     (take (length (resolveSegments wd root)) (resolveSegments wd p) = resolveSegments wd root)"

section \<open>Object tables\<close>

definition deref :: "'a list \<Rightarrow> ref \<Rightarrow> 'a option" where
  "deref objs r = (if r < length objs then Some (objs ! r) else None)"

definition stagesOf :: "World \<Rightarrow> ref \<Rightarrow> Stage list" where
  "stagesOf w p =
     (case deref (pipelineObjs w) p of
        None \<Rightarrow> []
      | Some rs \<Rightarrow> List.map_filter (deref (stageObjs w)) rs)"

text \<open>Modelled from the spec: the constructor of \<^verbatim>\<open>Pipeline\<close> in the CodePipeline
  library. The spec's pipeline is an ordered container of stages; a new one has none.\<close>

definition newPipeline :: "World \<Rightarrow> ref \<times> World" where
  "newPipeline w = (length (pipelineObjs w), w\<lparr>pipelineObjs := pipelineObjs w @ [[]]\<rparr>)"

text \<open>Modelled from the spec: \<^verbatim>\<open>Pipeline.addStage\<close> of the CodePipeline library,
  the \<^verbatim>\<open>addStage(name) -> StageHandle\<close> of the spec's external "stage/action sink". The
  stage is a new object with the given name and actions, and it goes last in the pipeline
  ("creates stages in caller-specified order").\<close>

definition addStage :: "ref \<Rightarrow> string \<Rightarrow> Action list \<Rightarrow> World \<Rightarrow> ref \<times> World" where
  "addStage p name acts w =
     (let r = length (stageObjs w)
      in (r, w\<lparr>stageObjs := stageObjs w @ [\<lparr>stageName = name, actions = acts\<rparr>],
                pipelineObjs :=
                  (case deref (pipelineObjs w) p of
                     None \<Rightarrow> pipelineObjs w
                   | Some rs \<Rightarrow> (pipelineObjs w)[p := rs @ [r]])\<rparr>))"

text \<open>Modelled from the spec: \<^verbatim>\<open>IStage.addAction\<close> of the CodePipeline library,
  the \<^verbatim>\<open>StageHandle.addAction(action)\<close> of the spec's sink: "Order of addAction calls is
  significant and preserved", so the action goes last in its stage.\<close>

definition addAction :: "ref \<Rightarrow> Action \<Rightarrow> World \<Rightarrow> World" where
  "addAction r a w =
     (case deref (stageObjs w) r of
        None \<Rightarrow> w
      | Some st \<Rightarrow> w\<lparr>stageObjs := (stageObjs w)[r := st\<lparr>actions := actions st @ [a]\<rparr>]\<rparr>)"

text \<open>Modelled from the spec: the collection of entries of a publishing action, which
  \<^verbatim>\<open>PublishAssetsAction\<close> of \<^verbatim>\<open>./actions\<close> keeps. The spec's action "accumulates an
  ordered sequence" of requests, "preserving insertion order"; a request is "one concrete
  'publish this specific destination of this asset' instruction", and requesting is
  idempotent. An entry is what \<^verbatim>\<open>addPublishAssetAction\<close> hands over: the selector, which
  names the destination, and the relative manifest path. An entry that the action
  already holds is not added again; the same selector with another manifest path is
  another instruction and is kept.\<close>

definition insertCommand :: "string \<Rightarrow> string \<Rightarrow> (string \<times> string) list \<Rightarrow> (string \<times> string) list" where
  "insertCommand selector relativeManifestPath cs =
     (if (selector, relativeManifestPath) \<in> set cs then cs
      else cs @ [(selector, relativeManifestPath)])"

text \<open>Modelled from the spec: \<^verbatim>\<open>PublishAssetsAction.addPublishCommand\<close> of
  \<^verbatim>\<open>./actions\<close>, step 4 of the spec's algorithm: it inserts the entry into the publishing
  action that the reference points to.\<close>

definition addPublishCommand :: "ref \<Rightarrow> string \<Rightarrow> string \<Rightarrow> World \<Rightarrow> World" where
  "addPublishCommand r relativeManifestPath selector w =
     (case deref (publishObjs w) r of
        None \<Rightarrow> w
      | Some act \<Rightarrow>
          w\<lparr>publishObjs :=
              (publishObjs w)[r := act\<lparr>commands :=
                 insertCommand selector relativeManifestPath (commands act)\<rparr>]\<rparr>)"

section \<open>The asset publishing coordinator\<close>

definition maybeSuffix :: "string option \<Rightarrow> string \<Rightarrow> string option" where
  "maybeSuffix x suffix = (case x of None \<Rightarrow> None | Some s \<Rightarrow> Some (s @ suffix))"

text \<open>The constructor of \<^verbatim>\<open>AssetPublishing\<close> resolves the assembly root and adds the
  \<^verbatim>\<open>Assets\<close> stage to the pipeline at once.\<close>

definition newAssetPublishing ::
    "string \<Rightarrow> ref \<Rightarrow> string option \<Rightarrow> ref \<Rightarrow> string option \<Rightarrow> World \<Rightarrow> AssetPublishing \<times> World" where
  "newAssetPublishing dir input cliVersion p name w =
     (let (st, w') = addStage p ''Assets'' [] w
      in (\<lparr>publishers = [], assetRoles = (\<lambda>t. None), myCxAsmRoot = pathResolve (cwd w) dir,
           stage = st, pipeline = p, fileAssetCtr = 1, dockerAssetCtr = 1,
           cloudAssemblyInput = input, publishCliVersion = cliVersion, projectName = name\<rparr>, w'))"

definition assetRoleStatements :: "AssetType \<Rightarrow> PolicyStatement list" where
  "assetRoleStatements t =
     [\<lparr>resources = [FormatArn ''logs'' ''log-group'' '':'' ''/aws/codebuild/*''],
       policyActions = [''logs:CreateLogGroup'', ''logs:CreateLogStream'', ''logs:PutLogEvents'']\<rparr>,
      \<lparr>resources = [FormatArn ''codebuild'' ''report-group'' ''/'' ''*''],
       policyActions = [''codebuild:CreateReportGroup'', ''codebuild:CreateReport'',
                        ''codebuild:UpdateReport'', ''codebuild:BatchPutTestCases'']\<rparr>,
      \<lparr>resources = [Literal ''*''],
       policyActions = [''codebuild:BatchGetBuilds'', ''codebuild:StartBuild'', ''codebuild:StopBuild'']\<rparr>,
      \<lparr>resources = [Literal (if t = DOCKER_IMAGE then ''arn:*:iam::*:role/*-image-publishing-role-*''
                                else ''arn:*:iam::*:role/*-file-publishing-role-*'')],
       policyActions = [''sts:AssumeRole'']\<rparr>]"

definition rolePrefix :: "AssetType \<Rightarrow> string" where
  "rolePrefix t = (if t = DOCKER_IMAGE then ''Docker'' else ''File'')"

text \<open>\<^verbatim>\<open>generateAssetRole\<close> returns the memoized role of the asset type, creating the
  role resource when there is none yet. What it memoizes is the role's view without
  policy updates, which stands for the role: the model keeps the role's reference.\<close>

definition newRole :: "AssetType \<Rightarrow> Role" where
  "newRole t = \<lparr>roleId = rolePrefix t @ ''Role'', statements = assetRoleStatements t,
                artifactBucketRead = True\<rparr>"

definition generateAssetRole ::
    "AssetType \<Rightarrow> AssetPublishing \<times> World \<Rightarrow> ref \<times> AssetPublishing \<times> World" where
  "generateAssetRole t s =
     (let (this, w) = s
      in case assetRoles this t of
           Some r \<Rightarrow> (r, this, w)
         | None \<Rightarrow>
             (let r = length (roleObjs w)
              in (r, this\<lparr>assetRoles := (assetRoles this)(t \<mapsto> r)\<rparr>,
                     w\<lparr>roleObjs := roleObjs w @ [newRole t]\<rparr>)))"

definition outsideAssemblyError :: "AssetPublishing \<Rightarrow> AssetPublishingCommand \<Rightarrow> error" where
  "outsideAssemblyError this command =
     Error (''The asset manifest ('' @ assetManifestPath command
            @ '') cannot be outside the Cloud Assembly directory ('' @ myCxAsmRoot this
            @ ''). Please report this error at https://github.com/aws/aws-cdk/issues to help us debug why this is happening.'')"

text \<open>\<^verbatim>\<open>addPublishAssetAction\<close>. The result pairs what the call did (\<open>None\<close>: it returned;
  \<open>Some e\<close>: it threw \<open>e\<close>) with the coordinator and the world as the call left them.
  \<open>newPublisher\<close> is the branch that creates the publishing action: the action is named
  by the counter of its asset type, which is then incremented, is registered under the
  asset's identity and is added to the \<^verbatim>\<open>Assets\<close> stage.\<close>

definition newAction :: "AssetPublishingCommand \<Rightarrow> AssetPublishing \<Rightarrow> PublishAssetsAction" where
  "newAction command this =
     \<lparr>actionName = (if assetType command = FILE
                     then ''FileAsset'' @ decimal (fileAssetCtr this)
                     else ''DockerAsset'' @ decimal (dockerAssetCtr this)),
      actionInput = cloudAssemblyInput this,
      actionCliVersion = publishCliVersion this,
      actionAssetType = assetType command,
      role = assetRoles this (assetType command),
      commands = []\<rparr>"

definition newPublisher ::
    "AssetPublishingCommand \<Rightarrow> AssetPublishing \<times> World \<Rightarrow> ref \<times> AssetPublishing \<times> World" where
  "newPublisher command s =
     (let (this, w) = s;
          action = length (publishObjs w);
          w1 = w\<lparr>publishObjs := publishObjs w @ [newAction command this]\<rparr>;
          this1 = (if assetType command = FILE
                   then this\<lparr>fileAssetCtr := fileAssetCtr this + 1\<rparr>
                   else this\<lparr>dockerAssetCtr := dockerAssetCtr this + 1\<rparr>);
          this2 = this1\<lparr>publishers := publishers this1 @ [(assetId command, action)]\<rparr>
      in (action, this2, addAction (stage this2) (PublishAssets action) w1))"

text \<open>The three steps of the call after the path check: the role of the asset type is
  there or is generated; the publisher of the asset is found or created; the command is
  added to it.\<close>

definition ensureAssetRole :: "AssetType \<Rightarrow> AssetPublishing \<times> World \<Rightarrow> AssetPublishing \<times> World" where
  "ensureAssetRole t s =
     (if assetRoles (fst s) t = None then snd (generateAssetRole t s) else s)"

definition publisherFor ::
    "AssetPublishingCommand \<Rightarrow> AssetPublishing \<times> World \<Rightarrow> ref \<times> AssetPublishing \<times> World" where
  "publisherFor command s =
     (case map_of (publishers (fst s)) (assetId command) of
        Some action \<Rightarrow> (action, s)
      | None \<Rightarrow> newPublisher command s)"

definition relativePathOf :: "AssetPublishingCommand \<Rightarrow> AssetPublishing \<times> World \<Rightarrow> string" where
  "relativePathOf command s =
     pathRelative (cwd (snd s)) (myCxAsmRoot (fst s)) (assetManifestPath command)"

definition addPublishAssetAction ::
    "AssetPublishingCommand \<Rightarrow> AssetPublishing \<times> World \<Rightarrow> error option \<times> AssetPublishing \<times> World" where
  "addPublishAssetAction command s =
     (let relativePath = relativePathOf command s
      in if startsWith relativePath ''../'' then (Some (outsideAssemblyError (fst s) command), s)
         else
           (let (action, this, w) = publisherFor command (ensureAssetRole (assetType command) s)
            in (None, this, addPublishCommand action relativePath (assetSelector command) w)))"

fun indexOf :: "'a list \<Rightarrow> 'a \<Rightarrow> int" where
  "indexOf [] x = - 1"
| "indexOf (y # ys) x =
     (if y = x then 0 else (let i = indexOf ys x in if i > - 1 then i + 1 else - 1))"

definition splice1 :: "'a list \<Rightarrow> nat \<Rightarrow> 'a list" where
  "splice1 xs ix = take ix xs @ drop (Suc ix) xs"

definition removeAssetsStageIfEmpty :: "AssetPublishing \<times> World \<Rightarrow> AssetPublishing \<times> World" where
  "removeAssetsStageIfEmpty s =
     (let (this, w) = s
      in if length (map fst (publishers this)) = 0
         then (case deref (pipelineObjs w) (pipeline this) of
                 None \<Rightarrow> s
               | Some stages \<Rightarrow>
                   (let ix = indexOf stages (stage this)
                    in if ix > - 1
                       then (this, w\<lparr>pipelineObjs := (pipelineObjs w)[pipeline this := splice1 stages (nat ix)]\<rparr>)
                       else s))
         else s)"

text \<open>A planning session issues its publish requests one after the other; a request that
  throws ends it.\<close>

fun publishAll ::
    "AssetPublishingCommand list \<Rightarrow> AssetPublishing \<times> World \<Rightarrow> error option \<times> AssetPublishing \<times> World" where
  "publishAll [] s = (None, s)"
| "publishAll (c # cs) s =
     (case addPublishAssetAction c s of
        (Some e, s') \<Rightarrow> (Some e, s')
      | (None, s') \<Rightarrow> publishAll cs s')"

section \<open>The pipeline construct\<close>

text \<open>The truth test of JavaScript on an optional string: \<^verbatim>\<open>undefined\<close> and the empty
  string are false.\<close>

definition truthy :: "string option \<Rightarrow> bool" where
  "truthy x = (case x of None \<Rightarrow> False | Some s \<Rightarrow> s \<noteq> [])"

text \<open>\<^verbatim>\<open>codePipeline.stages.length\<close>.\<close>

definition stageCount :: "World \<Rightarrow> ref \<Rightarrow> nat" where
  "stageCount w p = (case deref (pipelineObjs w) p of None \<Rightarrow> 0 | Some rs \<Rightarrow> length rs)"

definition nameWithPipelineError :: error where
  "nameWithPipelineError =
     Error (''Cannot set '' @ quoted ''pipelineName'' @ '' if an existing CodePipeline is given using ''
            @ quoted ''codePipeline'')"

definition sourceWithoutSynthError :: error where
  "sourceWithoutSynthError =
     Error (''When passing a '' @ quoted ''sourceAction'' @ '' you must also pass a ''
            @ quoted ''synthAction'' @ '' (or a '' @ quoted ''codePipeline''
            @ '' that already has both)'')"

definition missingSourceError :: error where
  "missingSourceError =
     Error (''You must pass a '' @ quoted ''sourceAction'' @ '' (or a '' @ quoted ''codePipeline''
            @ '' that already has a Source stage)'')"

definition missingSynthError :: error where
  "missingSynthError =
     Error (''You must pass a '' @ quoted ''synthAction'' @ '' (or a '' @ quoted ''codePipeline''
            @ '' that already has a Build stage)'')"

text \<open>The constructor of \<^verbatim>\<open>CdkPipeline\<close>. It returns the error it threw or the new
  construct, and the world as it stood when it threw or returned.\<close>

definition buildStages :: "Scope \<Rightarrow> CdkPipelineProps \<Rightarrow> ref \<Rightarrow> World \<Rightarrow> CdkPipeline \<times> World" where
  "buildStages scope props p w =
     (let w1 = (case sourceAction props of
                  None \<Rightarrow> w
                | Some a \<Rightarrow> snd (addStage p ''Source'' [a] w));
          w2 = (case synthAction props of
                  None \<Rightarrow> w1
                | Some a \<Rightarrow> snd (addStage p ''Build'' [a] w1));
          w3 = snd (addStage p ''UpdatePipeline''
                      [UpdatePipeline (cloudAssemblyArtifact props) (pipelineStackName scope)
                         (cdkCliVersion props)
                         (maybeSuffix (pipelineName props) ''-selfupdate'')] w2);
          (a, w4) = newAssetPublishing (outdir scope) (cloudAssemblyArtifact props)
                      (cdkCliVersion props) p (maybeSuffix (pipelineName props) ''-publish'') w3
      in (\<lparr>thePipeline = p, assets = a, outputArtifacts = [],
           assemblyArtifact = cloudAssemblyArtifact props\<rparr>, w4))"

definition newCdkPipeline :: "Scope \<Rightarrow> CdkPipelineProps \<Rightarrow> World \<Rightarrow> (error + CdkPipeline) \<times> World" where
  "newCdkPipeline scope props w =
     (if \<not> rootIsApp scope then (Inl (Error ''CdkPipeline must be created under an App''), w)
      else if codePipeline props \<noteq> None \<and> truthy (pipelineName props)
      then (Inl nameWithPipelineError, w)
      else
        (let (p, w1) = (case codePipeline props of Some p \<Rightarrow> (p, w) | None \<Rightarrow> newPipeline w)
         in if sourceAction props \<noteq> None \<and> synthAction props = None
            then (Inl sourceWithoutSynthError, w1)
            else if sourceAction props = None \<and> (codePipeline props = None \<or> stageCount w1 p < 1)
            then (Inl missingSourceError, w1)
            else if synthAction props = None \<and> (codePipeline props = None \<or> stageCount w1 p < 2)
            then (Inl missingSynthError, w1)
            else (case buildStages scope props p w1 of (this, w2) \<Rightarrow> (Inr this, w2))))"

text \<open>A read \<^verbatim>\<open>obj[key]\<close> of a plain object finds the object's own property, or else
  the member of that name that the object inherits from \<^verbatim>\<open>Object.prototype\<close>, or else
  \<^verbatim>\<open>undefined\<close>. The inherited members are functions, and \<^verbatim>\<open>__proto__\<close> is the
  prototype object: all of them pass a truth test, and none has a method
  \<^verbatim>\<open>atPath\<close>.\<close>

datatype 'a Property = Own 'a | Inherited | Undefined

definition objectPrototypeMembers :: "string list" where
  "objectPrototypeMembers =
     [''constructor'', ''__defineGetter__'', ''__defineSetter__'', ''hasOwnProperty'',
      ''__lookupGetter__'', ''__lookupSetter__'', ''isPrototypeOf'', ''propertyIsEnumerable'',
      ''toString'', ''valueOf'', ''__proto__'', ''toLocaleString'']"

definition getProperty :: "(string \<times> 'a) list \<Rightarrow> string \<Rightarrow> 'a Property" where
  "getProperty obj key =
     (case map_of obj key of
        Some v \<Rightarrow> Own v
      | None \<Rightarrow> if key \<in> set objectPrototypeMembers then Inherited else Undefined)"

definition atPathNotAFunction :: error where
  "atPathNotAFunction =
     TypeError ''this._outputArtifacts[stack.artifactId].atPath is not a function''"

definition atPathOfUndefined :: error where
  "atPathOfUndefined =
     TypeError (''Cannot read property '' @ quoted ''atPath'' @ '' of undefined'')"

text \<open>\<^verbatim>\<open>stackOutput\<close>: when the read of the registry under the artifact id of the
  output's stack is \<^verbatim>\<open>undefined\<close>, a new artifact is registered there. The registry is
  then read again and \<^verbatim>\<open>atPath\<close> is called on what the read finds: on a registered
  artifact the call gives the path of the outputs file, and the \<^verbatim>\<open>StackOutput\<close> that
  is returned is a new object on every call; on an inherited member the call throws.
  The function returns the error, or the reference of the new object.\<close>

definition stackOutput ::
    "CfnOutput \<Rightarrow> CdkPipeline \<times> World \<Rightarrow> (error + ref) \<times> CdkPipeline \<times> World" where
  "stackOutput cfnOutput s =
     (let (this, w) = s;
          artifactId = outputStackArtifactId cfnOutput;
          (this1, w1) =
            (if getProperty (outputArtifacts this) artifactId = Undefined
             then (this\<lparr>outputArtifacts := outputArtifacts this @ [(artifactId, length (artifactObjs w))]\<rparr>,
                   w\<lparr>artifactObjs := artifactObjs w @
                        [\<lparr>artifactName = Some (''Artifact_'' @ artifactId @ ''_Outputs'')\<rparr>]\<rparr>)
             else (this, w))
      in case getProperty (outputArtifacts this1) artifactId of
           Own artifact \<Rightarrow>
             (Inr (length (stackOutputObjs w1)), this1,
              w1\<lparr>stackOutputObjs := stackOutputObjs w1 @
                    [\<lparr>artifactFile = (artifact, ''outputs.json''), outputName = logicalId cfnOutput\<rparr>]\<rparr>)
         | Inherited \<Rightarrow> (Inl atPathNotAFunction, this1, w1)
         | Undefined \<Rightarrow> (Inl atPathOfUndefined, this1, w1))"

section \<open>Validation of the deploy order and of the requested outputs\<close>

definition asDeployAction :: "Action \<Rightarrow> DeployCdkStackAction option" where
  "asDeployAction a = (case a of DeployCdkStack d \<Rightarrow> Some d | _ \<Rightarrow> None)"

definition flatMap :: "'a list \<Rightarrow> ('a \<Rightarrow> 'b list) \<Rightarrow> 'b list" where
  "flatMap xs f = concat ([] # map f xs)"

definition stackActions :: "Stage list \<Rightarrow> DeployCdkStackAction list" where
  "stackActions stages = flatMap stages (\<lambda>s. List.map_filter asDeployAction (actions s))"

text \<open>The generator \<^verbatim>\<open>validateDeployOrder\<close> has two effects per dependency: it adds a
  warning to the construct's annotations, or it yields a violation. A \<open>Finding\<close> records
  which one happened; the list of findings is in the order of the two nested loops.\<close>

datatype Finding = Warning string | Violation string

definition notDeployedWarning :: "DeployCdkStackAction \<Rightarrow> string \<Rightarrow> string" where
  "notDeployedWarning stackAction depId =
     ''Stack '' @ quoted (stackName stackAction) @ '' depends on stack '' @ quoted depId
       @ '', but that dependency is not deployed through the pipeline!''"

definition deployedBeforeViolation :: "DeployCdkStackAction \<Rightarrow> DeployCdkStackAction \<Rightarrow> string" where
  "deployedBeforeViolation stackAction depAction =
     ''Stack '' @ quoted (stackName stackAction) @ '' depends on stack ''
       @ quoted (stackName depAction) @ '', but is deployed before it in the pipeline!''"

definition checkDependency ::
    "DeployCdkStackAction list \<Rightarrow> DeployCdkStackAction \<Rightarrow> string \<Rightarrow> Finding list" where
  "checkDependency acts stackAction depId =
     (case find (\<lambda>s. stackArtifactId s = depId) acts of
        None \<Rightarrow> [Warning (notDeployedWarning stackAction depId)]
      | Some depAction \<Rightarrow>
          if \<not> (executeRunOrder depAction < prepareRunOrder stackAction)
          then [Violation (deployedBeforeViolation stackAction depAction)]
          else [])"

fun checkDependencies ::
    "DeployCdkStackAction list \<Rightarrow> DeployCdkStackAction \<Rightarrow> string list \<Rightarrow> Finding list" where
  "checkDependencies acts stackAction [] = []"
| "checkDependencies acts stackAction (depId # rest) =
     checkDependency acts stackAction depId @ checkDependencies acts stackAction rest"

fun checkActions :: "DeployCdkStackAction list \<Rightarrow> DeployCdkStackAction list \<Rightarrow> Finding list" where
  "checkActions acts [] = []"
| "checkActions acts (stackAction # rest) =
     checkDependencies acts stackAction (dependencyStackArtifactIds stackAction)
       @ checkActions acts rest"

definition validateDeployOrder :: "DeployCdkStackAction list \<Rightarrow> Finding list" where
  "validateDeployOrder acts = checkActions acts acts"

fun yielded :: "Finding list \<Rightarrow> string list" where
  "yielded [] = []"
| "yielded (Violation m # fs) = m # yielded fs"
| "yielded (Warning m # fs) = yielded fs"

fun warned :: "Finding list \<Rightarrow> string list" where
  "warned [] = []"
| "warned (Warning m # fs) = m # warned fs"
| "warned (Violation m # fs) = warned fs"

definition outputsNotDeployed :: "string \<Rightarrow> string" where
  "outputsNotDeployed artifactId =
     ''Trying to use outputs for Stack '' @ quoted artifactId
       @ '', but Stack is not deployed in this pipeline. Add it to the pipeline.''"

fun requestedOutputsLoop :: "string list \<Rightarrow> string list \<Rightarrow> string list" where
  "requestedOutputsLoop artifactIds [] = []"
| "requestedOutputsLoop artifactIds (artifactId # rest) =
     (if artifactId \<notin> set artifactIds
      then outputsNotDeployed artifactId # requestedOutputsLoop artifactIds rest
      else requestedOutputsLoop artifactIds rest)"

definition validateRequestedOutputs :: "DeployCdkStackAction list \<Rightarrow> (string \<times> ref) list \<Rightarrow> string list" where
  "validateRequestedOutputs acts outs =
     requestedOutputsLoop (map stackArtifactId acts) (map fst outs)"

text \<open>\<^verbatim>\<open>validate()\<close> returns the violations of both passes; the warnings are what it adds
  to the annotations on the way.\<close>

definition validate :: "CdkPipeline \<Rightarrow> World \<Rightarrow> string list \<times> string list" where
  "validate this w =
     (let acts = stackActions (stagesOf w (thePipeline this));
          findings = validateDeployOrder acts
      in (yielded findings @ validateRequestedOutputs acts (outputArtifacts this),
          warned findings))"

section \<open>Vocabulary of the properties\<close>

text \<open>The segments that \<^verbatim>\<open>path.resolve\<close> leaves: non-empty names without a separator,
  other than \<^verbatim>\<open>.\<close> and \<^verbatim>\<open>..\<close>.\<close>

definition goodSegment :: "string \<Rightarrow> bool" where
  "goodSegment s = (s \<noteq> [] \<and> s \<noteq> ''.'' \<and> s \<noteq> ''..'' \<and> CHR ''/'' \<notin> set s)"

text \<open>A request is accepted when the path check lets it pass; \<open>stateAfter\<close> is the
  state that a call leaves, \<open>statesAfter\<close> the state after a sequence of calls.\<close>

definition accepted :: "AssetPublishingCommand \<Rightarrow> AssetPublishing \<times> World \<Rightarrow> bool" where
  "accepted c s = (\<not> startsWith (relativePathOf c s) ''../'')"

definition stateAfter :: "AssetPublishingCommand \<Rightarrow> AssetPublishing \<times> World \<Rightarrow> AssetPublishing \<times> World" where
  "stateAfter c s = snd (addPublishAssetAction c s)"

definition statesAfter :: "AssetPublishingCommand list \<Rightarrow> AssetPublishing \<times> World \<Rightarrow> AssetPublishing \<times> World" where
  "statesAfter cs s = foldl (\<lambda>s c. stateAfter c s) s cs"

text \<open>The elements of a list that are not in \<open>seen\<close>, each once, in the order of their
  first occurrence.\<close>

fun firstOccurrences :: "'a list \<Rightarrow> 'a list \<Rightarrow> 'a list" where
  "firstOccurrences seen [] = []"
| "firstOccurrences seen (x # xs) =
     (if x \<in> set seen then firstOccurrences seen xs else x # firstOccurrences (seen @ [x]) xs)"

text \<open>The names that the spec gives to publishing actions: the \<open>n\<close>-th file asset and the
  \<open>m\<close>-th image asset, counted per asset type from the two counters.\<close>

fun numberAssets :: "nat \<Rightarrow> nat \<Rightarrow> AssetType list \<Rightarrow> string list" where
  "numberAssets f d [] = []"
| "numberAssets f d (FILE # ks) = (''FileAsset'' @ decimal f) # numberAssets (f + 1) d ks"
| "numberAssets f d (DOCKER_IMAGE # ks) = (''DockerAsset'' @ decimal d) # numberAssets f (d + 1) ks"

text \<open>Two coordinators carry the same tokens when their registries, counters and stages
  agree and their publishing actions have the same names, one by one; the commands of the
  actions may differ.\<close>

definition sameTokens :: "AssetPublishing \<times> World \<Rightarrow> AssetPublishing \<times> World \<Rightarrow> bool" where
  "sameTokens s t =
     (publishers (fst s) = publishers (fst t) \<and>
      fileAssetCtr (fst s) = fileAssetCtr (fst t) \<and>
      dockerAssetCtr (fst s) = dockerAssetCtr (fst t) \<and>
      stage (fst s) = stage (fst t) \<and>
      stageObjs (snd s) = stageObjs (snd t) \<and>
      map actionName (publishObjs (snd s)) = map actionName (publishObjs (snd t)))"

text \<open>Invariants of the coordinator: a memoized role is the role object of its asset type;
  a registered publisher is a publishing action whose role is the role object of the
  action's asset type; once a publisher exists, the stage holds an action.\<close>

definition rolesOk :: "AssetPublishing \<times> World \<Rightarrow> bool" where
  "rolesOk s = (\<forall>k r. assetRoles (fst s) k = Some r \<longrightarrow>
                  r < length (roleObjs (snd s)) \<and> roleObjs (snd s) ! r = newRole k)"

definition publishersOk :: "AssetPublishing \<times> World \<Rightarrow> bool" where
  "publishersOk s = (\<forall>r \<in> snd ` set (publishers (fst s)).
       r < length (publishObjs (snd s)) \<and>
       (\<exists>ro. role (publishObjs (snd s) ! r) = Some ro \<and> ro < length (roleObjs (snd s)) \<and>
             roleObjs (snd s) ! ro = newRole (actionAssetType (publishObjs (snd s) ! r))))"


text \<open>The registry of output artifacts is well formed when its keys are distinct (it is an
  object), no artifact is registered twice and every registered artifact exists.
  \<open>artifactOf\<close> is the artifact that a \<^verbatim>\<open>StackOutput\<close> object points to.\<close>

definition outputsWf :: "CdkPipeline \<times> World \<Rightarrow> bool" where
  "outputsWf s =
     (distinct (map fst (outputArtifacts (fst s))) \<and>
      distinct (map snd (outputArtifacts (fst s))) \<and>
      list_all (\<lambda>e. snd e < length (artifactObjs (snd s))) (outputArtifacts (fst s)))"

definition artifactOf :: "World \<Rightarrow> ref \<Rightarrow> ref option" where
  "artifactOf w h = map_option (\<lambda>out. fst (artifactFile out)) (deref (stackOutputObjs w) h)"

definition outputArtifactName :: "string \<Rightarrow> string" where
  "outputArtifactName artifactId = ''Artifact_'' @ artifactId @ ''_Outputs''"

section \<open>Example inputs\<close>

text \<open>The units of the spec's end-to-end scenario, with the run orders left open.\<close>

definition unitA :: "int \<Rightarrow> int \<Rightarrow> DeployCdkStackAction" where
  "unitA p e = \<lparr>stackName = ''A'', stackArtifactId = ''A'', dependencyStackArtifactIds = [],
                prepareRunOrder = p, executeRunOrder = e\<rparr>"

definition unitB :: "int \<Rightarrow> int \<Rightarrow> DeployCdkStackAction" where
  "unitB p e = \<lparr>stackName = ''B'', stackArtifactId = ''B'', dependencyStackArtifactIds = [''A''],
                prepareRunOrder = p, executeRunOrder = e\<rparr>"

definition unitC :: "int \<Rightarrow> int \<Rightarrow> DeployCdkStackAction" where
  "unitC p e = \<lparr>stackName = ''C'', stackArtifactId = ''C'',
                dependencyStackArtifactIds = [''A'', ''Z''],
                prepareRunOrder = p, executeRunOrder = e\<rparr>"

text \<open>A world with one pipeline of one stage that deploys \<open>A\<close>, and a world with one
  pipeline without stages.\<close>

definition deployWorld :: World where
  "deployWorld =
     \<lparr>cwd = ''/work'', pipelineObjs = [[0]],
      stageObjs = [\<lparr>stageName = ''Deploy'', actions = [DeployCdkStack (unitA 1 2)]\<rparr>],
      publishObjs = [], roleObjs = [], artifactObjs = [\<lparr>artifactName = Some ''Assembly''\<rparr>],
      stackOutputObjs = []\<rparr>"

definition emptyWorld :: World where
  "emptyWorld =
     \<lparr>cwd = ''/work'', pipelineObjs = [[]], stageObjs = [], publishObjs = [], roleObjs = [],
      artifactObjs = [\<lparr>artifactName = Some ''Assembly''\<rparr>], stackOutputObjs = []\<rparr>"

definition appScope :: Scope where
  "appScope = \<lparr>rootIsApp = True, outdir = ''cdk.out'', pipelineStackName = ''PipelineStack''\<rparr>"

definition sourceOnlyProps :: CdkPipelineProps where
  "sourceOnlyProps =
     \<lparr>sourceAction = Some (OtherAction ''GitHub''), synthAction = None, cloudAssemblyArtifact = 0,
      codePipeline = None, pipelineName = None, cdkCliVersion = None\<rparr>"

text \<open>A coordinator that was just created on the pipeline of \<open>emptyWorld\<close>, with the
  assembly in \<^verbatim>\<open>/work/cdk.out\<close>; a pipeline construct around it, without and with
  requested outputs.\<close>

definition freshAssets :: "AssetPublishing \<times> World" where
  "freshAssets = newAssetPublishing ''cdk.out'' 0 None 0 None emptyWorld"

definition freshPipeline :: "CdkPipeline \<times> World" where
  "freshPipeline =
     (\<lparr>thePipeline = 0, assets = fst freshAssets, outputArtifacts = [], assemblyArtifact = 0\<rparr>,
      snd freshAssets)"

definition requestingPipeline :: CdkPipeline where
  "requestingPipeline =
     \<lparr>thePipeline = 0, assets = fst freshAssets, outputArtifacts = [(''A'', 1), (''Q'', 2)],
      assemblyArtifact = 0\<rparr>"

definition outputOf :: "string \<Rightarrow> string \<Rightarrow> CfnOutput" where
  "outputOf unit name = \<lparr>outputStackArtifactId = unit, logicalId = name\<rparr>"

text \<open>Publish requests: for a file asset and an image asset with manifests inside the
  assembly, the same request with its manifest elsewhere inside the assembly, and a request
  whose manifest path is the directory that holds the assembly.\<close>

definition fileRequest :: "string \<Rightarrow> string \<Rightarrow> AssetPublishingCommand" where
  "fileRequest ident dest =
     \<lparr>assetManifestPath = ''/work/cdk.out/manifest.json'', assetId = ident,
      assetSelector = dest, assetType = FILE\<rparr>"

definition imageRequest :: "string \<Rightarrow> string \<Rightarrow> AssetPublishingCommand" where
  "imageRequest ident dest =
     \<lparr>assetManifestPath = ''cdk.out/assembly-Prod/manifest.json'', assetId = ident,
      assetSelector = dest, assetType = DOCKER_IMAGE\<rparr>"

definition movedRequest :: "AssetPublishingCommand \<Rightarrow> AssetPublishingCommand" where
  "movedRequest c = c\<lparr>assetManifestPath := ''/work/cdk.out/assembly-Stage/../other/manifest.json''\<rparr>"

definition escapingRequest :: AssetPublishingCommand where
  "escapingRequest =
     \<lparr>assetManifestPath = ''/work'', assetId = ''asset-1'', assetSelector = ''d1'',
      assetType = FILE\<rparr>"

definition exampleRequests :: "AssetPublishingCommand list" where
  "exampleRequests =
     [fileRequest ''asset-1'' ''d1'', imageRequest ''asset-2'' ''d1'',
      fileRequest ''asset-3'' ''d1'', fileRequest ''asset-1'' ''d2'']"

section \<open>The dependency-order validator\<close>

lemma flatMap_concat: "flatMap xs f = concat (map f xs)"
  by (simp add: flatMap_def)

lemma checkDependencies_concat:
  "checkDependencies acts a ds = concat (map (checkDependency acts a) ds)"
  by (induction ds) simp_all

lemma checkActions_concat:
  "checkActions acts as =
     concat (map (\<lambda>a. concat (map (checkDependency acts a) (dependencyStackArtifactIds a))) as)"
  by (induction as) (simp_all add: checkDependencies_concat)

text \<open>The validator's findings are the findings of every dependency edge, in the order of
  the actions and, per action, of its dependencies.\<close>

lemma validateDeployOrder_edges:
  "validateDeployOrder acts =
     concat (map (\<lambda>a. concat (map (checkDependency acts a) (dependencyStackArtifactIds a))) acts)"
  by (simp add: validateDeployOrder_def checkActions_concat)

lemma edge_findings_subset:
  assumes "a \<in> set acts" and "d \<in> set (dependencyStackArtifactIds a)"
  shows "set (checkDependency acts a d) \<subseteq> set (validateDeployOrder acts)"
  using assms by (auto simp: validateDeployOrder_edges)

lemma yielded_append: "yielded (fs @ gs) = yielded fs @ yielded gs"
  by (induction fs rule: yielded.induct) simp_all

lemma warned_append: "warned (fs @ gs) = warned fs @ warned gs"
  by (induction fs rule: warned.induct) simp_all

lemma set_yielded: "set (yielded fs) = {m. Violation m \<in> set fs}"
  by (induction fs rule: yielded.induct) auto

lemma yielded_concat: "yielded (concat fss) = concat (map yielded fss)"
  by (induction fss) (simp_all add: yielded_append)

lemma warned_concat: "warned (concat fss) = concat (map warned fss)"
  by (induction fss) (simp_all add: warned_append)

text \<open>What the validator yields and what it warns about, edge by edge.\<close>

lemma validateDeployOrder_yielded:
  "yielded (validateDeployOrder acts) =
     concat (map (\<lambda>a. concat (map (\<lambda>d. yielded (checkDependency acts a d))
                                    (dependencyStackArtifactIds a))) acts)"
  by (simp add: validateDeployOrder_edges yielded_concat comp_def)

lemma validateDeployOrder_warned:
  "warned (validateDeployOrder acts) =
     concat (map (\<lambda>a. concat (map (\<lambda>d. warned (checkDependency acts a d))
                                    (dependencyStackArtifactIds a))) acts)"
  by (simp add: validateDeployOrder_edges warned_concat comp_def)

text \<open>
  Claim C1, as amended. Take a deploy action \<open>a\<close> of the flattened action list and a
  dependency identity \<open>d\<close> of \<open>a\<close> that some deploy action of the list deploys. The
  validator compares \<open>a\<close> with the first action in pipeline order whose unit is \<open>d\<close>
  (index \<open>i\<close>); when every unit is deployed by one action only, that is the action of
  the unit. For this edge the validator yields exactly one violation, whose message names
  the stack of \<open>a\<close> and the stack of that action, when
  \<open>executeRunOrder < prepareRunOrder\<close> fails, equal orders included, and yields nothing
  (no violation and no warning) when the strict inequality holds. The violations that the
  validator yields are those of its edges and no others, in the order of the actions and
  of their dependencies.
\<close>

theorem validateDeployOrder_violation_iff:
  assumes "a \<in> set acts"
    and "d \<in> set (dependencyStackArtifactIds a)"
    and "\<exists>D \<in> set acts. stackArtifactId D = d"
  shows "(\<exists>i < length acts.
           stackArtifactId (acts ! i) = d \<and> (\<forall>j < i. stackArtifactId (acts ! j) \<noteq> d) \<and>
           (distinct (map stackArtifactId acts) \<longrightarrow>
              (\<forall>D \<in> set acts. stackArtifactId D = d \<longrightarrow> D = acts ! i)) \<and>
           checkDependency acts a d =
             (if executeRunOrder (acts ! i) < prepareRunOrder a then []
              else [Violation (''Stack '' @ [CHR 0x27] @ stackName a @ [CHR 0x27]
                      @ '' depends on stack '' @ [CHR 0x27] @ stackName (acts ! i) @ [CHR 0x27]
                      @ '', but is deployed before it in the pipeline!'')])) \<and>
         set (checkDependency acts a d) \<subseteq> set (validateDeployOrder acts) \<and>
         yielded (validateDeployOrder acts) =
           concat (map (\<lambda>b. concat (map (\<lambda>e. yielded (checkDependency acts b e))
                                          (dependencyStackArtifactIds b))) acts)"
proof -
  from assms(3) obtain D where D: "find (\<lambda>s. stackArtifactId s = d) acts = Some D"
    by (cases "find (\<lambda>s. stackArtifactId s = d) acts") (auto simp: find_None_iff)
  then obtain i where i: "i < length acts" "stackArtifactId (acts ! i) = d" "D = acts ! i"
      "\<forall>j < i. stackArtifactId (acts ! j) \<noteq> d"
    by (auto simp: find_Some_iff)
  have only: "\<forall>E \<in> set acts. stackArtifactId E = d \<longrightarrow> E = acts ! i"
    if dist: "distinct (map stackArtifactId acts)"
  proof (intro ballI impI)
    fix E assume E: "E \<in> set acts" "stackArtifactId E = d"
    then obtain k where k: "k < length acts" "acts ! k = E" by (auto simp: in_set_conv_nth)
    have "map stackArtifactId acts ! k = map stackArtifactId acts ! i"
      using k i(1,2) E(2) by simp
    then have "k = i"
      using dist k(1) i(1) by (simp add: nth_eq_iff_index_eq del: nth_map)
    with k(2) show "E = acts ! i" by simp
  qed
  have edge: "checkDependency acts a d =
          (if executeRunOrder (acts ! i) < prepareRunOrder a then []
           else [Violation (''Stack '' @ [CHR 0x27] @ stackName a @ [CHR 0x27]
                   @ '' depends on stack '' @ [CHR 0x27] @ stackName (acts ! i) @ [CHR 0x27]
                   @ '', but is deployed before it in the pipeline!'')])"
    using D i(3) by (simp add: checkDependency_def deployedBeforeViolation_def quoted_def)
  have "\<exists>i < length acts.
           stackArtifactId (acts ! i) = d \<and> (\<forall>j < i. stackArtifactId (acts ! j) \<noteq> d) \<and>
           (distinct (map stackArtifactId acts) \<longrightarrow>
              (\<forall>D \<in> set acts. stackArtifactId D = d \<longrightarrow> D = acts ! i)) \<and>
           checkDependency acts a d =
             (if executeRunOrder (acts ! i) < prepareRunOrder a then []
              else [Violation (''Stack '' @ [CHR 0x27] @ stackName a @ [CHR 0x27]
                      @ '' depends on stack '' @ [CHR 0x27] @ stackName (acts ! i) @ [CHR 0x27]
                      @ '', but is deployed before it in the pipeline!'')])"
    using i(1,2,4) only edge by blast
  then show ?thesis
    using edge_findings_subset[OF assms(1,2)] validateDeployOrder_yielded[of acts] by simp
qed

text \<open>The spec's scenario: \<open>B\<close> depends on \<open>A\<close>. With \<open>B\<close> at orders (1,2) before \<open>A\<close> at
  (3,4) the edge is a violation; with \<open>A\<close> at (1,2) and \<open>B\<close> at (3,4) it is none; with \<open>A\<close>
  executing at order 3 and \<open>B\<close> preparing at order 3 it is a violation again.\<close>

theorem validateDeployOrder_violation_iff_witness:
  "checkDependency [unitB 1 2, unitA 3 4] (unitB 1 2) ''A''
     = [Violation (''Stack '' @ [CHR 0x27] @ ''B'' @ [CHR 0x27] @ '' depends on stack ''
          @ [CHR 0x27] @ ''A'' @ [CHR 0x27] @ '', but is deployed before it in the pipeline!'')] \<and>
   checkDependency [unitA 1 2, unitB 3 4] (unitB 3 4) ''A'' = [] \<and>
   checkDependency [unitA 2 3, unitB 3 4] (unitB 3 4) ''A''
     = [Violation (''Stack '' @ [CHR 0x27] @ ''B'' @ [CHR 0x27] @ '' depends on stack ''
          @ [CHR 0x27] @ ''A'' @ [CHR 0x27] @ '', but is deployed before it in the pipeline!'')] \<and>
   yielded (validateDeployOrder [unitB 1 2, unitA 3 4])
     = [''Stack '' @ [CHR 0x27] @ ''B'' @ [CHR 0x27] @ '' depends on stack ''
          @ [CHR 0x27] @ ''A'' @ [CHR 0x27] @ '', but is deployed before it in the pipeline!'']"
  using validateDeployOrder_violation_iff [of "unitB 1 2" "[unitB 1 2, unitA 3 4]" "''A''"]
    validateDeployOrder_violation_iff [of "unitB 3 4" "[unitA 1 2, unitB 3 4]" "''A''"]
    validateDeployOrder_violation_iff [of "unitB 3 4" "[unitA 2 3, unitB 3 4]" "''A''"]
  by (auto simp: unitA_def unitB_def less_Suc_eq)

text \<open>The claim as stated fails: it speaks of any deploy action of the dependency's unit.
  Here two actions deploy \<open>A\<close>. The second one executes at order 6, which is not before
  \<open>B\<close> prepares at order 3, yet the validator yields nothing: it compares \<open>B\<close> with the first
  action of \<open>A\<close> only, which executes at order 2.\<close>

theorem validateDeployOrder_later_action_ignored:
  "unitB 3 4 \<in> set [unitA 1 2, unitA 5 6, unitB 3 4] \<and>
   ''A'' \<in> set (dependencyStackArtifactIds (unitB 3 4)) \<and>
   unitA 5 6 \<in> set [unitA 1 2, unitA 5 6, unitB 3 4] \<and>
   stackArtifactId (unitA 5 6) = ''A'' \<and>
   prepareRunOrder (unitB 3 4) \<le> executeRunOrder (unitA 5 6) \<and>
   checkDependency [unitA 1 2, unitA 5 6, unitB 3 4] (unitB 3 4) ''A'' = [] \<and>
   yielded (validateDeployOrder [unitA 1 2, unitA 5 6, unitB 3 4]) = []"
  by (simp add: validateDeployOrder_def checkDependency_def unitA_def unitB_def)

text \<open>
  Claim C5. Take a deploy action \<open>a\<close> of the list and a dependency identity \<open>d\<close> of \<open>a\<close>
  that no deploy action of the list deploys. For this edge the validator adds exactly one
  warning and yields no violation: the finding is on the warning channel only, and it is
  part of the validator's output.
\<close>

theorem validateDeployOrder_missing_dependency:
  assumes "a \<in> set acts"
    and "d \<in> set (dependencyStackArtifactIds a)"
    and "\<forall>D \<in> set acts. stackArtifactId D \<noteq> d"
  shows "checkDependency acts a d = [Warning (notDeployedWarning a d)] \<and>
         warned (checkDependency acts a d) = [notDeployedWarning a d] \<and>
         yielded (checkDependency acts a d) = [] \<and>
         Warning (notDeployedWarning a d) \<in> set (validateDeployOrder acts)"
proof -
  have "find (\<lambda>s. stackArtifactId s = d) acts = None"
    using assms(3) by (simp add: find_None_iff)
  then have "checkDependency acts a d = [Warning (notDeployedWarning a d)]"
    by (simp add: checkDependency_def)
  with edge_findings_subset[OF assms(1,2)] show ?thesis by simp
qed

theorem validateDeployOrder_missing_dependency_witness:
  "warned (checkDependency [unitA 1 2, unitC 3 4] (unitC 3 4) ''Z'')
     = [notDeployedWarning (unitC 3 4) ''Z''] \<and>
   yielded (checkDependency [unitA 1 2, unitC 3 4] (unitC 3 4) ''Z'') = []"
  using validateDeployOrder_missing_dependency [of "unitC 3 4" "[unitA 1 2, unitC 3 4]" "''Z''"]
  by (simp add: unitA_def unitC_def)

text \<open>When every unit is deployed by one action only, the action that \<open>find\<close> returns is
  the action of the unit, and the comparison is the one between the two units.\<close>

lemma checkDependency_unique:
  assumes "distinct (map stackArtifactId acts)" and "D \<in> set acts"
  shows "checkDependency acts a (stackArtifactId D) =
           (if executeRunOrder D < prepareRunOrder a then []
            else [Violation (deployedBeforeViolation a D)])"
proof -
  have "find (\<lambda>s. stackArtifactId s = stackArtifactId D) acts = Some D"
    using assms
  proof (induction acts)
    case Nil
    then show ?case by simp
  next
    case (Cons x xs)
    then show ?case by (cases "x = D") (auto simp: image_iff)
  qed
  then show ?thesis by (simp add: checkDependency_def)
qed

text \<open>The spec's end-to-end scenarios: \<open>B\<close> and \<open>C\<close> both after \<open>A\<close> give no violation
  (\<open>C\<close> also depends on \<open>Z\<close>, which is not in the pipeline: one warning); \<open>B\<close> before \<open>A\<close>
  gives exactly one violation.\<close>

lemma scenario_diamond:
  "yielded (validateDeployOrder [unitA 1 2, unitB 3 4, unitC 3 4]) = [] \<and>
   warned (validateDeployOrder [unitA 1 2, unitB 3 4, unitC 3 4]) = [notDeployedWarning (unitC 3 4) ''Z'']"
  by (simp add: validateDeployOrder_def checkDependency_def unitA_def unitB_def unitC_def)

lemma scenario_inverted:
  "validateDeployOrder [unitB 1 2, unitA 3 4] =
     [Violation (deployedBeforeViolation (unitB 1 2) (unitA 3 4))]"
  by (simp add: validateDeployOrder_def checkDependency_def unitA_def unitB_def)

section \<open>Requested outputs\<close>

lemma requestedOutputsLoop_filter:
  "requestedOutputsLoop ids ks = map outputsNotDeployed (filter (\<lambda>k. k \<notin> set ids) ks)"
  by (induction ks) simp_all

lemma outputsNotDeployed_inj: "outputsNotDeployed u = outputsNotDeployed v \<Longrightarrow> u = v"
  by (simp add: outputsNotDeployed_def quoted_def)

lemma count_list_map_inj:
  assumes "\<And>x y. f x = f y \<Longrightarrow> x = y"
  shows "count_list (map f xs) (f u) = count_list xs u"
  using assms by (induction xs) auto

lemma count_list_distinct_filter:
  "distinct xs \<Longrightarrow> u \<in> set xs \<Longrightarrow> P u \<Longrightarrow> count_list (filter P xs) u = 1"
  by (induction xs) (auto simp: count_list_0_iff)

lemma violation_not_outputs:
  "Violation m \<in> set (checkDependency acts a d) \<Longrightarrow> m \<noteq> outputsNotDeployed u"
  by (auto simp: checkDependency_def deployedBeforeViolation_def outputsNotDeployed_def
      split: option.splits if_splits)

lemma yielded_not_outputs:
  "outputsNotDeployed u \<notin> set (yielded (validateDeployOrder acts))"
  by (auto simp: set_yielded validateDeployOrder_edges dest: violation_not_outputs)

text \<open>
  Claim C10. \<^verbatim>\<open>validate()\<close> also checks the requested outputs. The keys of the output
  registry are the unit identities for which \<^verbatim>\<open>stackOutput\<close> was requested (the keys of an
  object are distinct). For every such unit that no deploy action of the pipeline deploys,
  the list that \<^verbatim>\<open>validate()\<close> returns holds the error naming the unit exactly once; when
  every requested unit is deployed, this pass returns no error.
\<close>

theorem validate_requested_outputs:
  assumes "distinct (map fst (outputArtifacts this))"
  shows "(\<forall>u \<in> fst ` set (outputArtifacts this).
            u \<notin> stackArtifactId ` set (stackActions (stagesOf w (thePipeline this))) \<longrightarrow>
            count_list (fst (validate this w)) (outputsNotDeployed u) = 1) \<and>
         ((\<forall>u \<in> fst ` set (outputArtifacts this).
            u \<in> stackArtifactId ` set (stackActions (stagesOf w (thePipeline this)))) \<longrightarrow>
          validateRequestedOutputs (stackActions (stagesOf w (thePipeline this)))
            (outputArtifacts this) = [])"
proof (intro conjI ballI impI)
  let ?acts = "stackActions (stagesOf w (thePipeline this))"
  fix u assume u: "u \<in> fst ` set (outputArtifacts this)" "u \<notin> stackArtifactId ` set ?acts"
  have "count_list (yielded (validateDeployOrder ?acts)) (outputsNotDeployed u) = 0"
    using yielded_not_outputs by (simp add: count_list_0_iff)
  moreover have "count_list (validateRequestedOutputs ?acts (outputArtifacts this))
                   (outputsNotDeployed u) = 1"
    using assms u
    by (simp add: validateRequestedOutputs_def requestedOutputsLoop_filter
        count_list_map_inj[of outputsNotDeployed, OF outputsNotDeployed_inj]
        count_list_distinct_filter)
  ultimately show "count_list (fst (validate this w)) (outputsNotDeployed u) = 1"
    by (simp add: validate_def Let_def)
next
  let ?acts = "stackActions (stagesOf w (thePipeline this))"
  assume "\<forall>u \<in> fst ` set (outputArtifacts this). u \<in> stackArtifactId ` set ?acts"
  then show "validateRequestedOutputs ?acts (outputArtifacts this) = []"
    by (auto simp: validateRequestedOutputs_def requestedOutputsLoop_filter filter_empty_conv)
qed

text \<open>Outputs were requested for \<open>A\<close> and \<open>Q\<close>; the pipeline deploys \<open>A\<close> only.\<close>

theorem validate_requested_outputs_witness:
  "count_list (fst (validate requestingPipeline deployWorld)) (outputsNotDeployed ''Q'') = 1 \<and>
   count_list (fst (validate requestingPipeline deployWorld)) (outputsNotDeployed ''A'') = 0"
  using validate_requested_outputs [of requestingPipeline deployWorld]
  by (simp add: requestingPipeline_def deployWorld_def stagesOf_def deref_def stackActions_def
      flatMap_def List.map_filter_simps asDeployAction_def unitA_def validate_def
      validateDeployOrder_def validateRequestedOutputs_def outputsNotDeployed_def quoted_def)

section \<open>Preconditions of the constructor\<close>

text \<open>
  Claim C9. When a source action is given without a synth action, or the source action is
  missing and no given pipeline has at least one stage, or the synth action is missing
  and no given pipeline has at least two stages, or a pipeline is given together with a
  pipeline name (a non-empty string, which is what the code's truth test accepts as a
  name), the constructor throws one of its descriptive errors. At the throw no stage has
  been created: the table of stage objects is unchanged, the stage lists of the existing
  pipelines are unchanged, and at most a new pipeline without stages has been allocated.
\<close>

theorem newCdkPipeline_fails_fast:
  assumes "(sourceAction props \<noteq> None \<and> synthAction props = None) \<or>
      (sourceAction props = None \<and>
         (case codePipeline props of None \<Rightarrow> True | Some p \<Rightarrow> stageCount w p < 1)) \<or>
      (synthAction props = None \<and>
         (case codePipeline props of None \<Rightarrow> True | Some p \<Rightarrow> stageCount w p < 2)) \<or>
      (codePipeline props \<noteq> None \<and> truthy (pipelineName props))"
  shows "\<exists>e w'. newCdkPipeline scope props w = (Inl e, w') \<and>
           e \<in> {Error ''CdkPipeline must be created under an App'', nameWithPipelineError,
                sourceWithoutSynthError, missingSourceError, missingSynthError} \<and>
           stageObjs w' = stageObjs w \<and>
           (pipelineObjs w' = pipelineObjs w \<or> pipelineObjs w' = pipelineObjs w @ [[]])"
  using assms
  by (auto simp: newCdkPipeline_def newPipeline_def Let_def stageCount_def deref_def
      split: option.splits prod.splits if_splits)

theorem newCdkPipeline_fails_fast_witness:
  "\<exists>w'. newCdkPipeline appScope sourceOnlyProps emptyWorld = (Inl sourceWithoutSynthError, w') \<and>
        stageObjs w' = []"
  using newCdkPipeline_fails_fast [of sourceOnlyProps emptyWorld appScope]
  by (auto simp: sourceOnlyProps_def emptyWorld_def appScope_def newCdkPipeline_def
      newPipeline_def)

text \<open>The four conditions and the test for the \<^verbatim>\<open>App\<close> are all that can make the
  constructor throw.\<close>

lemma newCdkPipeline_succeeds_iff:
  "(\<exists>this w'. newCdkPipeline scope props w = (Inr this, w')) \<longleftrightarrow>
     rootIsApp scope \<and>
     \<not> (codePipeline props \<noteq> None \<and> truthy (pipelineName props)) \<and>
     \<not> (sourceAction props \<noteq> None \<and> synthAction props = None) \<and>
     \<not> (sourceAction props = None \<and>
          (case codePipeline props of None \<Rightarrow> True | Some p \<Rightarrow> stageCount w p < 1)) \<and>
     \<not> (synthAction props = None \<and>
          (case codePipeline props of None \<Rightarrow> True | Some p \<Rightarrow> stageCount w p < 2))"
  by (auto simp: newCdkPipeline_def newPipeline_def Let_def stageCount_def deref_def
      split: option.splits prod.splits if_splits)

section \<open>Paths\<close>

lemma splitPath_no_sep: "s \<in> set (splitPath p) \<Longrightarrow> CHR ''/'' \<notin> set s"
proof (induction p arbitrary: s)
  case Nil
  then show ?case by simp
next
  case (Cons c cs)
  show ?case
  proof (cases "c = CHR ''/''")
    case True
    with Cons show ?thesis by auto
  next
    case False
    show ?thesis
    proof (cases "splitPath cs")
      case Nil
      with False Cons.prems show ?thesis by simp
    next
      case (Cons x xs)
      then have "x \<in> set (splitPath cs)" "set xs \<subseteq> set (splitPath cs)" by auto
      with Cons False Cons.prems Cons.IH show ?thesis by auto
    qed
  qed
qed

lemma normalizeSegments_good:
  assumes "\<forall>s \<in> set acc. goodSegment s" and "\<forall>s \<in> set ss. CHR ''/'' \<notin> set s"
  shows "\<forall>s \<in> set (normalizeSegments acc ss). goodSegment s"
  using assms
proof (induction acc ss rule: normalizeSegments.induct)
  case (1 acc)
  then show ?case by simp
next
  case (2 acc s ss)
  have rest: "\<forall>x \<in> set ss. CHR ''/'' \<notin> set x" using "2.prems"(2) by simp
  consider (skip) "s = [] \<or> s = ''.''" | (up) "\<not> (s = [] \<or> s = ''.'')" "s = ''..''"
    | (push) "\<not> (s = [] \<or> s = ''.'')" "s \<noteq> ''..''" by blast
  then show ?case
  proof cases
    case skip
    then have "normalizeSegments acc (s # ss) = normalizeSegments acc ss" by simp
    moreover have "\<forall>x \<in> set (normalizeSegments acc ss). goodSegment x"
      using "2.IH"(1)[OF skip "2.prems"(1) rest] .
    ultimately show ?thesis by simp
  next
    case up
    have bl: "\<forall>x \<in> set (butlast acc). goodSegment x"
      using "2.prems"(1) by (auto dest: in_set_butlastD)
    have "normalizeSegments acc (s # ss) = normalizeSegments (butlast acc) ss"
      using up by simp
    moreover have "\<forall>x \<in> set (normalizeSegments (butlast acc) ss). goodSegment x"
      using "2.IH"(2)[OF up bl rest] .
    ultimately show ?thesis by simp
  next
    case push
    have "goodSegment s" using push "2.prems"(2) by (simp add: goodSegment_def)
    then have ap: "\<forall>x \<in> set (acc @ [s]). goodSegment x" using "2.prems"(1) by simp
    have "normalizeSegments acc (s # ss) = normalizeSegments (acc @ [s]) ss"
      using push by simp
    moreover have "\<forall>x \<in> set (normalizeSegments (acc @ [s]) ss). goodSegment x"
      using "2.IH"(3)[OF push ap rest] .
    ultimately show ?thesis by simp
  qed
qed

lemma resolveSegments_good: "s \<in> set (resolveSegments wd p) \<Longrightarrow> goodSegment s"
proof -
  let ?ss = "if isAbsolute p then splitPath p else splitPath wd @ splitPath p"
  have "\<forall>x \<in> set ?ss. CHR ''/'' \<notin> set x"
    by (auto dest: splitPath_no_sep)
  then have "\<forall>x \<in> set (normalizeSegments [] ?ss). goodSegment x"
    by (intro normalizeSegments_good) simp_all
  then show "s \<in> set (resolveSegments wd p) \<Longrightarrow> goodSegment s"
    by (simp add: resolveSegments_def)
qed

lemma joinPath_Cons: "joinPath (s # ss) = s @ (if ss = [] then [] else CHR ''/'' # joinPath ss)"
  by (cases ss) simp_all

lemma good_not_dotdot_prefix:
  assumes "goodSegment s"
  shows "\<not> startsWith (joinPath (s # ss)) ''../''"
proof -
  obtain r where r: "joinPath (s # ss) = s @ r" "r = [] \<or> hd r = CHR ''/''"
    by (simp add: joinPath_Cons)
  show ?thesis
  proof (cases s)
    case Nil
    with assms show ?thesis by (simp add: goodSegment_def)
  next
    case (Cons c1 s1)
    note s = this
    show ?thesis
    proof (cases s1)
      case Nil
      with s r show ?thesis by (cases r) (auto simp: startsWith_def)
    next
      case (Cons c2 s2)
      with s r assms show ?thesis
        by (cases s2) (auto simp: startsWith_def goodSegment_def)
    qed
  qed
qed

lemma joinPath_good_not_dotdot:
  assumes "\<forall>s \<in> set ss. goodSegment s"
  shows "\<not> startsWith (joinPath ss) ''../''"
proof (cases ss)
  case Nil
  then show ?thesis by (simp add: startsWith_def)
next
  case (Cons a list)
  with assms have "goodSegment a" by simp
  then show ?thesis unfolding Cons by (rule good_not_dotdot_prefix)
qed

lemma dotdot_prefix: "startsWith (joinPath (''..'' # t # ss)) ''../''"
  by (simp add: startsWith_def)

lemma commonLength_le: "commonLength f t \<le> length f \<and> commonLength f t \<le> length t"
  by (induction f t rule: commonLength.induct) auto

lemma commonLength_take: "take (commonLength f t) f = take (commonLength f t) t"
  by (induction f t rule: commonLength.induct) auto

lemma commonLength_full: "commonLength f t = length f \<longleftrightarrow> take (length f) t = f"
  by (induction f t rule: commonLength.induct) auto

lemma commonLength_Nil2: "commonLength xs [] = 0"
  by (cases xs) simp_all

lemma commonLength_commute: "commonLength f t = commonLength t f"
  by (induction f t rule: commonLength.induct) (auto simp: commonLength_Nil2)

lemma withinRoot_commonLength:
  "withinRoot wd root p \<longleftrightarrow>
     commonLength (resolveSegments wd root) (resolveSegments wd p) = length (resolveSegments wd root)"
  by (simp add: withinRoot_def commonLength_full)

lemma within_no_dotdot:
  assumes "withinRoot wd root p"
  shows "\<not> startsWith (pathRelative wd root p) ''../''"
proof -
  have "\<forall>s \<in> set (drop (length (resolveSegments wd root)) (resolveSegments wd p)). goodSegment s"
    by (auto dest: in_set_dropD resolveSegments_good)
  then show ?thesis
    using assms by (simp add: pathRelative_def Let_def withinRoot_commonLength joinPath_good_not_dotdot)
qed

text \<open>Outside the root the relative path starts with \<^verbatim>\<open>../\<close>, unless the path is the
  directory that holds the root: then it is \<^verbatim>\<open>..\<close> itself.\<close>

lemma outside_dotdot:
  assumes "\<not> withinRoot wd root p"
  shows "startsWith (pathRelative wd root p) ''../'' \<longleftrightarrow>
           resolveSegments wd p \<noteq> butlast (resolveSegments wd root)"
proof -
  let ?f = "resolveSegments wd root" and ?t = "resolveSegments wd p"
  let ?n = "commonLength ?f ?t"
  from assms have lt: "?n < length ?f"
    using commonLength_le[of ?f ?t] by (simp add: withinRoot_commonLength)
  then obtain k where k: "length ?f - ?n = Suc k" by (cases "length ?f - ?n") auto
  have rel: "pathRelative wd root p = joinPath (''..'' # replicate k ''..'' @ drop ?n ?t)"
    by (simp add: pathRelative_def Let_def k)
  show ?thesis
  proof (cases "replicate k ''..'' @ drop ?n ?t")
    case Nil
    then have "k = 0" "length ?t \<le> ?n" by auto
    with k commonLength_le[of ?f ?t] have n: "?n = length ?t" "length ?f = Suc (length ?t)" by auto
    have "?t = take ?n ?f" using commonLength_take[of ?f ?t] n by simp
    also have "\<dots> = butlast ?f" using n by (simp add: butlast_conv_take)
    finally show ?thesis using Nil rel by (simp add: startsWith_def)
  next
    case (Cons x xs)
    have "?t \<noteq> butlast ?f"
    proof
      assume eq: "?t = butlast ?f"
      then have len: "length ?t = length ?f - 1" by simp
      have "take (length ?t) ?f = ?t" using eq by (simp add: butlast_conv_take)
      then have "commonLength ?t ?f = length ?t" by (simp add: commonLength_full)
      moreover have "commonLength ?t ?f = commonLength ?f ?t"
        by (rule commonLength_commute)
      ultimately have "?n = length ?t" by simp
      with len k have "k = 0" "drop ?n ?t = []" by auto
      with Cons show False by simp
    qed
    with Cons rel show ?thesis by (simp add: startsWith_def)
  qed
qed

section \<open>One publish request\<close>

lemma addAction_fields [simp]:
  "cwd (addAction r a w) = cwd w"
  "pipelineObjs (addAction r a w) = pipelineObjs w"
  "publishObjs (addAction r a w) = publishObjs w"
  "roleObjs (addAction r a w) = roleObjs w"
  "artifactObjs (addAction r a w) = artifactObjs w"
  "stackOutputObjs (addAction r a w) = stackOutputObjs w"
  "stageObjs (addAction r a w) =
     (if r < length (stageObjs w)
      then (stageObjs w)[r := (stageObjs w ! r)\<lparr>actions := actions (stageObjs w ! r) @ [a]\<rparr>]
      else stageObjs w)"
  by (simp_all add: addAction_def deref_def)

lemma addPublishCommand_fields [simp]:
  "cwd (addPublishCommand r p sel w) = cwd w"
  "pipelineObjs (addPublishCommand r p sel w) = pipelineObjs w"
  "stageObjs (addPublishCommand r p sel w) = stageObjs w"
  "roleObjs (addPublishCommand r p sel w) = roleObjs w"
  "artifactObjs (addPublishCommand r p sel w) = artifactObjs w"
  "stackOutputObjs (addPublishCommand r p sel w) = stackOutputObjs w"
  "publishObjs (addPublishCommand r p sel w) =
     (if r < length (publishObjs w)
      then (publishObjs w)[r := (publishObjs w ! r)\<lparr>commands :=
             insertCommand sel p (commands (publishObjs w ! r))\<rparr>]
      else publishObjs w)"
  by (simp_all add: addPublishCommand_def deref_def)

lemma ensureAssetRole_eq:
  "ensureAssetRole t s =
     (if assetRoles (fst s) t = None
      then ((fst s)\<lparr>assetRoles := (assetRoles (fst s))(t \<mapsto> length (roleObjs (snd s)))\<rparr>,
            (snd s)\<lparr>roleObjs := roleObjs (snd s) @ [newRole t]\<rparr>)
      else s)"
  by (cases s) (simp add: ensureAssetRole_def generateAssetRole_def Let_def)

lemma newPublisher_eq:
  "newPublisher c s =
     (length (publishObjs (snd s)),
      (fst s)\<lparr>fileAssetCtr := (if assetType c = FILE then fileAssetCtr (fst s) + 1 else fileAssetCtr (fst s)),
           dockerAssetCtr := (if assetType c = FILE then dockerAssetCtr (fst s) else dockerAssetCtr (fst s) + 1),
           publishers := publishers (fst s) @ [(assetId c, length (publishObjs (snd s)))]\<rparr>,
      addAction (stage (fst s)) (PublishAssets (length (publishObjs (snd s))))
        ((snd s)\<lparr>publishObjs := publishObjs (snd s) @ [newAction c (fst s)]\<rparr>))"
  by (cases s) (simp add: newPublisher_def Let_def newAction_def)

lemma throws_iff: "fst (addPublishAssetAction c s) = None \<longleftrightarrow> accepted c s"
  by (simp add: addPublishAssetAction_def accepted_def Let_def split: prod.splits)

lemma throws_unchanged:
  "\<not> accepted c s \<Longrightarrow> addPublishAssetAction c s = (Some (outsideAssemblyError (fst s) c), s)"
  by (simp add: addPublishAssetAction_def accepted_def Let_def)

lemma accepted_eq:
  "accepted c s \<Longrightarrow> addPublishAssetAction c s =
     (case publisherFor c (ensureAssetRole (assetType c) s) of
        (action, this, w) \<Rightarrow>
          (None, this, addPublishCommand action (relativePathOf c s) (assetSelector c) w))"
  by (simp add: addPublishAssetAction_def accepted_def Let_def)

lemma ensureAssetRole_fields [simp]:
  "publishers (fst (ensureAssetRole t s)) = publishers (fst s)"
  "myCxAsmRoot (fst (ensureAssetRole t s)) = myCxAsmRoot (fst s)"
  "stage (fst (ensureAssetRole t s)) = stage (fst s)"
  "pipeline (fst (ensureAssetRole t s)) = pipeline (fst s)"
  "fileAssetCtr (fst (ensureAssetRole t s)) = fileAssetCtr (fst s)"
  "dockerAssetCtr (fst (ensureAssetRole t s)) = dockerAssetCtr (fst s)"
  "cloudAssemblyInput (fst (ensureAssetRole t s)) = cloudAssemblyInput (fst s)"
  "publishCliVersion (fst (ensureAssetRole t s)) = publishCliVersion (fst s)"
  "cwd (snd (ensureAssetRole t s)) = cwd (snd s)"
  "pipelineObjs (snd (ensureAssetRole t s)) = pipelineObjs (snd s)"
  "stageObjs (snd (ensureAssetRole t s)) = stageObjs (snd s)"
  "publishObjs (snd (ensureAssetRole t s)) = publishObjs (snd s)"
  "artifactObjs (snd (ensureAssetRole t s)) = artifactObjs (snd s)"
  "stackOutputObjs (snd (ensureAssetRole t s)) = stackOutputObjs (snd s)"
  by (simp_all add: ensureAssetRole_eq)

lemma ensureAssetRole_roles:
  "roleObjs (snd (ensureAssetRole t s)) =
     roleObjs (snd s) @ (if assetRoles (fst s) t = None then [newRole t] else [])"
  "assetRoles (fst (ensureAssetRole t s)) =
     (if assetRoles (fst s) t = None then (assetRoles (fst s))(t \<mapsto> length (roleObjs (snd s)))
      else assetRoles (fst s))"
  by (simp_all add: ensureAssetRole_eq)

lemma publisherFor_fields [simp]:
  "myCxAsmRoot (fst (snd (publisherFor c s))) = myCxAsmRoot (fst s)"
  "stage (fst (snd (publisherFor c s))) = stage (fst s)"
  "pipeline (fst (snd (publisherFor c s))) = pipeline (fst s)"
  "assetRoles (fst (snd (publisherFor c s))) = assetRoles (fst s)"
  "cloudAssemblyInput (fst (snd (publisherFor c s))) = cloudAssemblyInput (fst s)"
  "publishCliVersion (fst (snd (publisherFor c s))) = publishCliVersion (fst s)"
  "cwd (snd (snd (publisherFor c s))) = cwd (snd s)"
  "pipelineObjs (snd (snd (publisherFor c s))) = pipelineObjs (snd s)"
  "roleObjs (snd (snd (publisherFor c s))) = roleObjs (snd s)"
  "artifactObjs (snd (snd (publisherFor c s))) = artifactObjs (snd s)"
  "stackOutputObjs (snd (snd (publisherFor c s))) = stackOutputObjs (snd s)"
  by (simp_all add: publisherFor_def newPublisher_eq split: option.splits)

lemma stateAfter_eq:
  "stateAfter c s =
     (if accepted c s
      then (fst (snd (publisherFor c (ensureAssetRole (assetType c) s))),
            addPublishCommand (fst (publisherFor c (ensureAssetRole (assetType c) s)))
              (relativePathOf c s) (assetSelector c)
              (snd (snd (publisherFor c (ensureAssetRole (assetType c) s)))))
      else s)"
  by (simp add: stateAfter_def accepted_eq throws_unchanged case_prod_beta)

lemma addPublishAssetAction_eq:
  "addPublishAssetAction c s =
     (if accepted c s then (None, stateAfter c s) else (Some (outsideAssemblyError (fst s) c), s))"
  by (simp add: stateAfter_def accepted_eq throws_unchanged case_prod_beta)

lemma stateAfter_frame [simp]:
  "cwd (snd (stateAfter c s)) = cwd (snd s)"
  "myCxAsmRoot (fst (stateAfter c s)) = myCxAsmRoot (fst s)"
  "stage (fst (stateAfter c s)) = stage (fst s)"
  "pipeline (fst (stateAfter c s)) = pipeline (fst s)"
  "pipelineObjs (snd (stateAfter c s)) = pipelineObjs (snd s)"
  "artifactObjs (snd (stateAfter c s)) = artifactObjs (snd s)"
  "stackOutputObjs (snd (stateAfter c s)) = stackOutputObjs (snd s)"
  "cloudAssemblyInput (fst (stateAfter c s)) = cloudAssemblyInput (fst s)"
  "publishCliVersion (fst (stateAfter c s)) = publishCliVersion (fst s)"
  by (simp_all add: stateAfter_eq)

lemma stateAfter_roles:
  "accepted c s \<Longrightarrow> roleObjs (snd (stateAfter c s)) =
     roleObjs (snd s) @ (if assetRoles (fst s) (assetType c) = None then [newRole (assetType c)] else [])"
  "accepted c s \<Longrightarrow> assetRoles (fst (stateAfter c s)) =
     (if assetRoles (fst s) (assetType c) = None
      then (assetRoles (fst s))(assetType c \<mapsto> length (roleObjs (snd s)))
      else assetRoles (fst s))"
  by (simp_all add: stateAfter_eq ensureAssetRole_roles)

lemma stateAfter_existing:
  assumes "accepted c s" and "map_of (publishers (fst s)) (assetId c) = Some r"
  shows "publishers (fst (stateAfter c s)) = publishers (fst s)"
    and "fileAssetCtr (fst (stateAfter c s)) = fileAssetCtr (fst s)"
    and "dockerAssetCtr (fst (stateAfter c s)) = dockerAssetCtr (fst s)"
    and "stageObjs (snd (stateAfter c s)) = stageObjs (snd s)"
    and "publishObjs (snd (stateAfter c s)) =
           (if r < length (publishObjs (snd s))
            then (publishObjs (snd s))[r := (publishObjs (snd s) ! r)\<lparr>commands :=
                   insertCommand (assetSelector c) (relativePathOf c s)
                     (commands (publishObjs (snd s) ! r))\<rparr>]
            else publishObjs (snd s))"
  using assms by (simp_all add: stateAfter_eq publisherFor_def)

lemma newAction_fields [simp]:
  "commands (newAction c this) = []"
  "actionAssetType (newAction c this) = assetType c"
  "role (newAction c this) = assetRoles this (assetType c)"
  "actionName (newAction c this) =
     (if assetType c = FILE then ''FileAsset'' @ decimal (fileAssetCtr this)
      else ''DockerAsset'' @ decimal (dockerAssetCtr this))"
  by (simp_all add: newAction_def)

lemma stateAfter_new:
  assumes "accepted c s" and "map_of (publishers (fst s)) (assetId c) = None"
  shows "publishers (fst (stateAfter c s)) =
           publishers (fst s) @ [(assetId c, length (publishObjs (snd s)))]"
    and "fileAssetCtr (fst (stateAfter c s)) =
           (if assetType c = FILE then fileAssetCtr (fst s) + 1 else fileAssetCtr (fst s))"
    and "dockerAssetCtr (fst (stateAfter c s)) =
           (if assetType c = FILE then dockerAssetCtr (fst s) else dockerAssetCtr (fst s) + 1)"
    and "stageObjs (snd (stateAfter c s)) =
           (if stage (fst s) < length (stageObjs (snd s))
            then (stageObjs (snd s))[stage (fst s) := (stageObjs (snd s) ! stage (fst s))\<lparr>actions :=
                   actions (stageObjs (snd s) ! stage (fst s))
                     @ [PublishAssets (length (publishObjs (snd s)))]\<rparr>]
            else stageObjs (snd s))"
    and "publishObjs (snd (stateAfter c s)) = publishObjs (snd s) @
           [(newAction c (fst (ensureAssetRole (assetType c) s)))
              \<lparr>commands := [(assetSelector c, relativePathOf c s)]\<rparr>]"
  using assms
  by (simp_all add: stateAfter_eq publisherFor_def newPublisher_eq insertCommand_def nth_append)

section \<open>Sequences of publish requests\<close>

lemma statesAfter_simps [simp]:
  "statesAfter [] s = s"
  "statesAfter (c # cs) s = statesAfter cs (stateAfter c s)"
  by (simp_all add: statesAfter_def)

lemma accepted_stateAfter [simp]: "accepted c (stateAfter d s) = accepted c s"
  by (simp add: accepted_def relativePathOf_def)

lemma relativePathOf_stateAfter [simp]: "relativePathOf c (stateAfter d s) = relativePathOf c s"
  by (simp add: relativePathOf_def)

lemma publishAll_accepted:
  "\<forall>c \<in> set cs. accepted c s \<Longrightarrow> publishAll cs s = (None, statesAfter cs s)"
  by (induction cs arbitrary: s) (simp_all add: addPublishAssetAction_eq)

lemma statesAfter_frame [simp]:
  "cwd (snd (statesAfter cs s)) = cwd (snd s)"
  "myCxAsmRoot (fst (statesAfter cs s)) = myCxAsmRoot (fst s)"
  "stage (fst (statesAfter cs s)) = stage (fst s)"
  "pipeline (fst (statesAfter cs s)) = pipeline (fst s)"
  "pipelineObjs (snd (statesAfter cs s)) = pipelineObjs (snd s)"
  "artifactObjs (snd (statesAfter cs s)) = artifactObjs (snd s)"
  "stackOutputObjs (snd (statesAfter cs s)) = stackOutputObjs (snd s)"
proof (induction cs arbitrary: s)
  case Nil
  {
    case 1 show ?case by simp
  next
    case 2 show ?case by simp
  next
    case 3 show ?case by simp
  next
    case 4 show ?case by simp
  next
    case 5 show ?case by simp
  next
    case 6 show ?case by simp
  next
    case 7 show ?case by simp
  }
next
  case (Cons c cs)
  {
    case 1 show ?case by (simp add: Cons.IH(1))
  next
    case 2 show ?case by (simp add: Cons.IH(2))
  next
    case 3 show ?case by (simp add: Cons.IH(3))
  next
    case 4 show ?case by (simp add: Cons.IH(4))
  next
    case 5 show ?case by (simp add: Cons.IH(5))
  next
    case 6 show ?case by (simp add: Cons.IH(6))
  next
    case 7 show ?case by (simp add: Cons.IH(7))
  }
qed

lemma firstOccurrences_cong:
  "set a = set b \<Longrightarrow> firstOccurrences a xs = firstOccurrences b xs"
proof (induction xs arbitrary: a b)
  case Nil
  then show ?case by simp
next
  case (Cons x xs)
  have "set (a @ [x]) = set (b @ [x])" using Cons.prems by simp
  then have "firstOccurrences (a @ [x]) xs = firstOccurrences (b @ [x]) xs" by (rule Cons.IH)
  moreover have "firstOccurrences a xs = firstOccurrences b xs" using Cons.prems by (rule Cons.IH)
  ultimately show ?case using Cons.prems by simp
qed

lemma firstOccurrences_set: "set (firstOccurrences seen xs) = set xs - set seen"
  by (induction xs arbitrary: seen) auto

lemma firstOccurrences_is_distinct: "distinct (firstOccurrences seen xs)"
  by (induction xs arbitrary: seen) (simp_all add: firstOccurrences_set)

lemma firstOccurrences_distinct:
  "distinct xs \<Longrightarrow> set xs \<inter> set seen = {} \<Longrightarrow> firstOccurrences seen xs = xs"
proof (induction xs arbitrary: seen)
  case Nil
  then show ?case by simp
next
  case (Cons x xs)
  then have "set xs \<inter> set (seen @ [x]) = {}" by auto
  with Cons have "firstOccurrences (seen @ [x]) xs = xs" by simp
  with Cons.prems show ?case by simp
qed

section \<open>The example requests\<close>

lemma freshAssets_eq:
  "freshAssets =
     (\<lparr>publishers = [], assetRoles = (\<lambda>t. None), myCxAsmRoot = ''/work/cdk.out'',
       stage = 0, pipeline = 0, fileAssetCtr = 1, dockerAssetCtr = 1,
       cloudAssemblyInput = 0, publishCliVersion = None, projectName = None\<rparr>,
      \<lparr>cwd = ''/work'', pipelineObjs = [[0]],
       stageObjs = [\<lparr>stageName = ''Assets'', actions = []\<rparr>],
       publishObjs = [], roleObjs = [], artifactObjs = [\<lparr>artifactName = Some ''Assembly''\<rparr>],
       stackOutputObjs = []\<rparr>)"
  by (simp add: freshAssets_def newAssetPublishing_def addStage_def emptyWorld_def deref_def
      pathResolve_def resolveSegments_def isAbsolute_def Let_def)

lemma freshAssets_fields [simp]:
  "assetRoles (fst freshAssets) = (\<lambda>t. None)"
  "publishers (fst freshAssets) = []"
  "roleObjs (snd freshAssets) = []"
  "publishObjs (snd freshAssets) = []"
  "stage (fst freshAssets) = 0"
  "pipeline (fst freshAssets) = 0"
  "pipelineObjs (snd freshAssets) = [[0]]"
  "stageObjs (snd freshAssets) = [\<lparr>stageName = ''Assets'', actions = []\<rparr>]"
  "fileAssetCtr (fst freshAssets) = 1"
  "dockerAssetCtr (fst freshAssets) = 1"
  by (simp_all add: freshAssets_eq)

lemma request_fields [simp]:
  "assetId (fileRequest i d) = i" "assetSelector (fileRequest i d) = d"
  "assetType (fileRequest i d) = FILE"
  "assetId (imageRequest i d) = i" "assetSelector (imageRequest i d) = d"
  "assetType (imageRequest i d) = DOCKER_IMAGE"
  "assetId escapingRequest = ''asset-1''" "assetSelector escapingRequest = ''d1''"
  "assetType escapingRequest = FILE" "assetManifestPath escapingRequest = ''/work''"
  by (simp_all add: fileRequest_def imageRequest_def escapingRequest_def)

lemma movedRequest_fields [simp]:
  "assetId (movedRequest c) = assetId c" "assetType (movedRequest c) = assetType c"
  "assetSelector (movedRequest c) = assetSelector c"
  by (simp_all add: movedRequest_def)

lemma relative_file [simp]:
  "relativePathOf (fileRequest i d) freshAssets = ''manifest.json''"
  by (simp add: relativePathOf_def freshAssets_eq fileRequest_def pathRelative_def
      resolveSegments_def isAbsolute_def Let_def)

lemma relative_image [simp]:
  "relativePathOf (imageRequest i d) freshAssets = ''assembly-Prod/manifest.json''"
  by (simp add: relativePathOf_def freshAssets_eq imageRequest_def pathRelative_def
      resolveSegments_def isAbsolute_def Let_def)

lemma relative_moved [simp]:
  "relativePathOf (movedRequest c) freshAssets = ''other/manifest.json''"
  by (simp add: relativePathOf_def freshAssets_eq movedRequest_def pathRelative_def
      resolveSegments_def isAbsolute_def Let_def)

lemma relative_escaping [simp]:
  "relativePathOf escapingRequest freshAssets = ''..''"
  by (simp add: relativePathOf_def freshAssets_eq escapingRequest_def pathRelative_def
      resolveSegments_def isAbsolute_def Let_def)

lemma decimal_digit: "n < 10 \<Longrightarrow> decimal n = [digitChar n]"
  by (simp add: decimal.simps)

lemma decimal_1 [simp]: "decimal 1 = ''1''" "decimal (Suc 0) = ''1''" "decimal 2 = ''2''"
  by (simp_all add: decimal_digit digitChar_def)

lemma accepted_examples [simp]:
  "accepted (fileRequest i d) freshAssets"
  "accepted (imageRequest i d) freshAssets"
  "accepted escapingRequest freshAssets"
  by (simp_all add: accepted_def startsWith_def)

lemma accepted_moved [simp]: "accepted (movedRequest c) freshAssets"
  by (simp add: accepted_def startsWith_def)

lemma exampleRequests_accepted: "\<forall>c \<in> set exampleRequests. accepted c freshAssets"
  by (simp add: exampleRequests_def)

section \<open>The path check\<close>

text \<open>A manifest path within the assembly root is accepted. A path outside the root is
  rejected, and the rejected call leaves the coordinator and the world as they were,
  unless the path resolves to the directory that holds the root.\<close>

lemma within_accepted:
  "withinRoot (cwd (snd s)) (myCxAsmRoot (fst s)) (assetManifestPath c) \<Longrightarrow> accepted c s"
  by (simp add: accepted_def relativePathOf_def within_no_dotdot)

lemma outside_accepted_iff:
  assumes "\<not> withinRoot (cwd (snd s)) (myCxAsmRoot (fst s)) (assetManifestPath c)"
  shows "accepted c s \<longleftrightarrow>
           resolveSegments (cwd (snd s)) (assetManifestPath c)
             = butlast (resolveSegments (cwd (snd s)) (myCxAsmRoot (fst s)))"
  using outside_dotdot[OF assms] by (simp add: accepted_def relativePathOf_def)

lemma addPublishAssetAction_within_root:
  assumes "withinRoot (cwd (snd s)) (myCxAsmRoot (fst s)) (assetManifestPath c)"
  shows "fst (addPublishAssetAction c s) = None"
  using within_accepted[OF assms] by (simp add: addPublishAssetAction_eq)

lemma addPublishAssetAction_outside_root:
  assumes "\<not> withinRoot (cwd (snd s)) (myCxAsmRoot (fst s)) (assetManifestPath c)"
    and "resolveSegments (cwd (snd s)) (assetManifestPath c)
           \<noteq> butlast (resolveSegments (cwd (snd s)) (myCxAsmRoot (fst s)))"
  shows "addPublishAssetAction c s = (Some (outsideAssemblyError (fst s) c), s)"
  using assms by (simp add: addPublishAssetAction_eq outside_accepted_iff)

text \<open>
  Claim C7 says that every request whose manifest path resolves outside the assembly
  root is rejected. The code misses one case. With the root \<^verbatim>\<open>/work/cdk.out\<close> and the
  manifest path \<^verbatim>\<open>/work\<close>, which is outside the root, the relative path is \<^verbatim>\<open>..\<close>; it
  does not start with \<^verbatim>\<open>../\<close>, so the call returns, creates the role of the file assets
  and creates the publishing action \<^verbatim>\<open>FileAsset1\<close> with a command for the path \<^verbatim>\<open>..\<close>.
\<close>

theorem addPublishAssetAction_parent_of_root:
  "\<not> withinRoot (cwd (snd freshAssets)) (myCxAsmRoot (fst freshAssets))
        (assetManifestPath escapingRequest) \<and>
   fst (addPublishAssetAction escapingRequest freshAssets) = None \<and>
   roleObjs (snd (stateAfter escapingRequest freshAssets)) = [newRole FILE] \<and>
   publishers (fst (stateAfter escapingRequest freshAssets)) = [(''asset-1'', 0)] \<and>
   map actionName (publishObjs (snd (stateAfter escapingRequest freshAssets))) = [''FileAsset1''] \<and>
   map commands (publishObjs (snd (stateAfter escapingRequest freshAssets))) = [[(''d1'', ''..'')]]"
proof -
  have out: "\<not> withinRoot (cwd (snd freshAssets)) (myCxAsmRoot (fst freshAssets))
        (assetManifestPath escapingRequest)"
    by (simp add: freshAssets_eq withinRoot_def resolveSegments_def isAbsolute_def)
  have acc: "accepted escapingRequest freshAssets" by simp
  have new: "map_of (publishers (fst freshAssets)) (assetId escapingRequest) = None" by simp
  from out acc stateAfter_new[OF acc new] stateAfter_roles[OF acc] show ?thesis
    by (simp add: addPublishAssetAction_eq)
qed

section \<open>Requests for one asset\<close>

lemma map_of_snoc:
  "map_of (xs @ [(k, v)]) k' =
     (case map_of xs k' of Some x \<Rightarrow> Some x | None \<Rightarrow> if k' = k then Some v else None)"
  by (induction xs) auto

lemma firstOccurrences_length:
  "length (firstOccurrences [] xs) = length xs \<longleftrightarrow> distinct xs"
proof -
  have "length (firstOccurrences [] xs) = card (set xs)"
    using firstOccurrences_is_distinct[of "[]" xs] firstOccurrences_set[of "[]" xs]
    by (metis distinct_card list.set(1) Diff_empty)
  then show ?thesis
    using card_distinct[of xs] distinct_card[of xs] by auto
qed

lemma distinct_entries:
  "distinct (map f xs) \<Longrightarrow> distinct (map (\<lambda>x. (f x, g x)) xs)"
  by (induction xs) auto

lemma same_asset_tail:
  assumes "\<forall>c \<in> set cs. assetId c = aid" and "\<forall>c \<in> set cs. accepted c s"
    and "map_of (publishers (fst s)) aid = Some n" and "n < length (publishObjs (snd s))"
  shows "publishers (fst (statesAfter cs s)) = publishers (fst s) \<and>
         stageObjs (snd (statesAfter cs s)) = stageObjs (snd s) \<and>
         length (publishObjs (snd (statesAfter cs s))) = length (publishObjs (snd s)) \<and>
         actionName (publishObjs (snd (statesAfter cs s)) ! n) = actionName (publishObjs (snd s) ! n) \<and>
         commands (publishObjs (snd (statesAfter cs s)) ! n) =
           commands (publishObjs (snd s) ! n) @
             firstOccurrences (commands (publishObjs (snd s) ! n))
               (map (\<lambda>c. (assetSelector c, relativePathOf c s)) cs)"
  using assms
proof (induction cs arbitrary: s)
  case Nil
  then show ?case by simp
next
  case (Cons c cs)
  let ?s1 = "stateAfter c s"
  have acc: "accepted c s" and ex: "map_of (publishers (fst s)) (assetId c) = Some n"
    using Cons.prems by simp_all
  note st = stateAfter_existing[OF acc ex]
  have cmds: "commands (publishObjs (snd ?s1) ! n) =
      (if (assetSelector c, relativePathOf c s) \<in> set (commands (publishObjs (snd s) ! n))
       then commands (publishObjs (snd s) ! n)
       else commands (publishObjs (snd s) ! n) @ [(assetSelector c, relativePathOf c s)])"
    using Cons.prems(4) by (simp add: st(5) insertCommand_def)
  have name1: "actionName (publishObjs (snd ?s1) ! n) = actionName (publishObjs (snd s) ! n)"
    using Cons.prems(4) by (simp add: st(5))
  have objs1: "length (publishObjs (snd ?s1)) = length (publishObjs (snd s))"
    by (simp add: st(5))
  have "\<forall>d \<in> set cs. assetId d = aid" "\<forall>d \<in> set cs. accepted d ?s1"
    "map_of (publishers (fst ?s1)) aid = Some n" "n < length (publishObjs (snd ?s1))"
    using Cons.prems by (simp_all add: st(1) objs1)
  from Cons.IH[OF this]
  have ih: "publishers (fst (statesAfter cs ?s1)) = publishers (fst ?s1)"
    "stageObjs (snd (statesAfter cs ?s1)) = stageObjs (snd ?s1)"
    "length (publishObjs (snd (statesAfter cs ?s1))) = length (publishObjs (snd ?s1))"
    "actionName (publishObjs (snd (statesAfter cs ?s1)) ! n) = actionName (publishObjs (snd ?s1) ! n)"
    "commands (publishObjs (snd (statesAfter cs ?s1)) ! n) =
       commands (publishObjs (snd ?s1) ! n) @
         firstOccurrences (commands (publishObjs (snd ?s1) ! n))
           (map (\<lambda>c. (assetSelector c, relativePathOf c s)) cs)"
    by simp_all
  show ?case
    by (simp add: ih(1,2,3,4) st(1) st(4) objs1 name1) (simp add: ih(5) cmds)
qed

text \<open>
  Claim C2, as amended. Let a sequence of one or more accepted requests carry the same asset
  identity, which has no publisher yet, and let the coordinator's stage exist. Every call
  returns. Exactly one publishing action is created: the first call names it by the
  counter of its asset type, registers it under the identity and adds it to the
  \<^verbatim>\<open>Assets\<close> stage, and the later calls leave the registry and the stage as the first
  call left them. Afterwards the action holds the entries of the requests in call order,
  a request that repeats an earlier one (the same destination from the same manifest)
  adding none: when the destinations are pairwise distinct these are the entries of all
  the calls, as many as calls and in call order, and the action holds as many entries as
  there were calls exactly when no request repeats an earlier one.
\<close>

theorem publishAll_same_asset:
  assumes "\<forall>c \<in> set (c0 # cs). assetId c = aid"
    and "\<forall>c \<in> set (c0 # cs). accepted c s"
    and "map_of (publishers (fst s)) aid = None"
    and "stage (fst s) < length (stageObjs (snd s))"
  shows "\<exists>s'. publishAll (c0 # cs) s = (None, s') \<and>
           publishers (fst s') = publishers (fst s) @ [(aid, length (publishObjs (snd s)))] \<and>
           length (publishObjs (snd s')) = Suc (length (publishObjs (snd s))) \<and>
           actionName (publishObjs (snd s') ! length (publishObjs (snd s))) =
             (if assetType c0 = FILE then ''FileAsset'' @ decimal (fileAssetCtr (fst s))
              else ''DockerAsset'' @ decimal (dockerAssetCtr (fst s))) \<and>
           actions (stageObjs (snd (stateAfter c0 s)) ! stage (fst s)) =
             actions (stageObjs (snd s) ! stage (fst s)) @ [PublishAssets (length (publishObjs (snd s)))] \<and>
           stageObjs (snd s') = stageObjs (snd (stateAfter c0 s)) \<and>
           commands (publishObjs (snd s') ! length (publishObjs (snd s))) =
             firstOccurrences [] (map (\<lambda>c. (assetSelector c, relativePathOf c s)) (c0 # cs)) \<and>
           (distinct (map assetSelector (c0 # cs)) \<longrightarrow>
              commands (publishObjs (snd s') ! length (publishObjs (snd s))) =
                map (\<lambda>c. (assetSelector c, relativePathOf c s)) (c0 # cs)) \<and>
           (length (commands (publishObjs (snd s') ! length (publishObjs (snd s)))) = length (c0 # cs)
              \<longleftrightarrow> distinct (map (\<lambda>c. (assetSelector c, relativePathOf c s)) (c0 # cs)))"
proof -
  let ?n = "length (publishObjs (snd s))"
  let ?s1 = "stateAfter c0 s"
  let ?s' = "statesAfter cs ?s1"
  let ?es = "map (\<lambda>c. (assetSelector c, relativePathOf c s)) (c0 # cs)"
  have acc: "accepted c0 s" and nw: "map_of (publishers (fst s)) (assetId c0) = None"
    using assms by simp_all
  note st = stateAfter_new[OF acc nw]
  have run: "publishAll (c0 # cs) s = (None, ?s')"
    using publishAll_accepted[OF assms(2)] by simp
  have aid: "assetId c0 = aid" using assms(1) by simp
  have first_stage: "actions (stageObjs (snd ?s1) ! stage (fst s)) =
      actions (stageObjs (snd s) ! stage (fst s)) @ [PublishAssets ?n]"
    using assms(4) by (simp add: st(4))
  have first_cmds: "commands (publishObjs (snd ?s1) ! ?n) = [(assetSelector c0, relativePathOf c0 s)]"
    by (simp add: st(5))
  have first_name: "actionName (publishObjs (snd ?s1) ! ?n) =
      (if assetType c0 = FILE then ''FileAsset'' @ decimal (fileAssetCtr (fst s))
       else ''DockerAsset'' @ decimal (dockerAssetCtr (fst s)))"
    by (simp add: st(5))
  have pre: "\<forall>c \<in> set cs. assetId c = aid" "\<forall>c \<in> set cs. accepted c ?s1"
    "map_of (publishers (fst ?s1)) aid = Some ?n" "?n < length (publishObjs (snd ?s1))"
    using assms(1,2,3) by (simp_all add: st(1) st(5) aid map_add_def)
  note tail = same_asset_tail[OF pre]
  have entries: "commands (publishObjs (snd ?s') ! ?n) = firstOccurrences [] ?es"
    using tail by (simp add: first_cmds)
  have name: "actionName (publishObjs (snd ?s') ! ?n) =
      (if assetType c0 = FILE then ''FileAsset'' @ decimal (fileAssetCtr (fst s))
       else ''DockerAsset'' @ decimal (dockerAssetCtr (fst s)))"
    using tail first_name by simp
  have all: "commands (publishObjs (snd ?s') ! ?n) = ?es"
    if "distinct (map assetSelector (c0 # cs))"
  proof -
    have "distinct ?es" using that by (rule distinct_entries)
    then have "firstOccurrences [] ?es = ?es" by (rule firstOccurrences_distinct) simp
    then show ?thesis by (simp only: entries)
  qed
  have count: "length (commands (publishObjs (snd ?s') ! ?n)) = length (c0 # cs) \<longleftrightarrow> distinct ?es"
    using firstOccurrences_length[of ?es] by (simp only: entries length_map)
  have parts: "publishers (fst ?s') = publishers (fst s) @ [(aid, ?n)]"
    "length (publishObjs (snd ?s')) = Suc ?n"
    "stageObjs (snd ?s') = stageObjs (snd ?s1)"
    using tail by (simp_all add: st(1) st(5) aid)
  show ?thesis
  proof (intro exI conjI)
    show "publishAll (c0 # cs) s = (None, ?s')" by (rule run)
    show "distinct (map assetSelector (c0 # cs)) \<longrightarrow> commands (publishObjs (snd ?s') ! ?n) = ?es"
      using all by blast
  qed (fact parts name first_stage entries count)+
qed

text \<open>The spec's scenario: two requests for \<^verbatim>\<open>asset-1\<close> with the destinations \<^verbatim>\<open>d1\<close> and
  \<^verbatim>\<open>d2\<close> give one publishing action, named by the sequence number 1, with the entries
  \<^verbatim>\<open>d1\<close>, \<^verbatim>\<open>d2\<close> in this order.\<close>

theorem publishAll_same_asset_witness:
  "\<exists>s'. publishAll [fileRequest ''asset-1'' ''d1'', fileRequest ''asset-1'' ''d2''] freshAssets = (None, s') \<and>
        publishers (fst s') = [(''asset-1'', 0)] \<and>
        length (publishObjs (snd s')) = 1 \<and>
        actionName (publishObjs (snd s') ! 0) = ''FileAsset1'' \<and>
        actions (stageObjs (snd s') ! 0) = [PublishAssets 0] \<and>
        commands (publishObjs (snd s') ! 0) = [(''d1'', ''manifest.json''), (''d2'', ''manifest.json'')]"
proof -
  have "\<forall>c \<in> set (fileRequest ''asset-1'' ''d1'' # [fileRequest ''asset-1'' ''d2'']).
          assetId c = ''asset-1''" by simp
  moreover have "\<forall>c \<in> set (fileRequest ''asset-1'' ''d1'' # [fileRequest ''asset-1'' ''d2'']).
          accepted c freshAssets" by simp
  moreover have "map_of (publishers (fst freshAssets)) ''asset-1'' = None" by simp
  moreover have "stage (fst freshAssets) < length (stageObjs (snd freshAssets))" by simp
  ultimately show ?thesis
    using publishAll_same_asset [of "fileRequest ''asset-1'' ''d1''" "[fileRequest ''asset-1'' ''d2'']"
        "''asset-1''" freshAssets]
    by (auto simp del: publishAll.simps)
qed

text \<open>The claim as stated fails: two requests for the same asset and the same destination,
  from the same manifest, leave one entry, not two.\<close>

theorem publishAll_repeated_destination:
  "fst (publishAll [fileRequest ''asset-1'' ''d1'', fileRequest ''asset-1'' ''d1''] freshAssets) = None \<and>
   map fst (commands (publishObjs (snd (snd
     (publishAll [fileRequest ''asset-1'' ''d1'', fileRequest ''asset-1'' ''d1''] freshAssets))) ! 0)) = [''d1''] \<and>
   length (commands (publishObjs (snd (snd
     (publishAll [fileRequest ''asset-1'' ''d1'', fileRequest ''asset-1'' ''d1''] freshAssets))) ! 0)) \<noteq> 2"
proof -
  let ?r = "fileRequest ''asset-1'' ''d1''"
  let ?s1 = "stateAfter ?r freshAssets"
  have run: "publishAll [?r, ?r] freshAssets = (None, statesAfter [?r] ?s1)"
    using publishAll_accepted[of "[?r, ?r]" freshAssets] by simp
  have acc: "accepted ?r freshAssets" by simp
  have nw: "map_of (publishers (fst freshAssets)) (assetId ?r) = None" by simp
  note st = stateAfter_new[OF acc nw]
  have "\<forall>c \<in> set [?r]. assetId c = ''asset-1''" "\<forall>c \<in> set [?r]. accepted c ?s1"
    "map_of (publishers (fst ?s1)) ''asset-1'' = Some 0" "0 < length (publishObjs (snd ?s1))"
    by (simp_all add: st(1) st(5))
  from same_asset_tail[OF this]
  have one: "commands (publishObjs (snd (statesAfter [?r] ?s1)) ! 0) = [(''d1'', ''manifest.json'')]"
    by (simp add: st(5))
  then have "length (commands (publishObjs (snd (statesAfter [?r] ?s1)) ! 0)) \<noteq> 2"
    by simp
  with one show ?thesis
    by (simp add: run del: publishAll.simps statesAfter_simps)
qed

text \<open>The same destination requested from two manifests gives two entries: the two
  requests are different instructions.\<close>

lemma publishAll_two_manifests:
  "commands (publishObjs (snd (statesAfter
      [fileRequest ''asset-1'' ''d1'', movedRequest (fileRequest ''asset-1'' ''d1'')] freshAssets)) ! 0) =
     [(''d1'', ''manifest.json''), (''d1'', ''other/manifest.json'')]"
proof -
  let ?r = "fileRequest ''asset-1'' ''d1''"
  let ?s1 = "stateAfter ?r freshAssets"
  have acc: "accepted ?r freshAssets" by simp
  have nw: "map_of (publishers (fst freshAssets)) (assetId ?r) = None" by simp
  note st = stateAfter_new[OF acc nw]
  have acc2: "accepted (movedRequest ?r) freshAssets"
    by (simp add: accepted_def startsWith_def)
  have "\<forall>c \<in> set [movedRequest ?r]. assetId c = ''asset-1''"
    "\<forall>c \<in> set [movedRequest ?r]. accepted c ?s1"
    "map_of (publishers (fst ?s1)) ''asset-1'' = Some 0" "0 < length (publishObjs (snd ?s1))"
    using acc2 by (simp_all add: st(1) st(5))
  from same_asset_tail[OF this]
  show ?thesis by (simp add: st(5))
qed

section \<open>Names of the publishing actions\<close>

lemma map_actionName_update:
  "map actionName (xs[r := (xs ! r)\<lparr>commands := cs\<rparr>]) = map actionName xs"
  by (induction xs arbitrary: r) (simp_all split: nat.splits)

lemma map_actionAssetType_update:
  "map actionAssetType (xs[r := (xs ! r)\<lparr>commands := cs\<rparr>]) = map actionAssetType xs"
  by (induction xs arbitrary: r) (simp_all split: nat.splits)

lemma sameTokens_step:
  assumes "sameTokens s t" and "assetId c = assetId d" and "assetType c = assetType d"
    and "accepted c s" and "accepted d t"
  shows "sameTokens (stateAfter c s) (stateAfter d t)"
proof (cases "map_of (publishers (fst s)) (assetId c)")
  case None
  then have None': "map_of (publishers (fst t)) (assetId d) = None"
    using assms(1,2) by (simp add: sameTokens_def)
  have len: "length (publishObjs (snd s)) = length (publishObjs (snd t))"
    using assms(1) by (auto simp: sameTokens_def dest: map_eq_imp_length_eq)
  from stateAfter_new[OF assms(4) None] stateAfter_new[OF assms(5) None'] assms(1,2,3) len
  show ?thesis by (simp add: sameTokens_def)
next
  case (Some r)
  then have Some': "map_of (publishers (fst t)) (assetId d) = Some r"
    using assms(1,2) by (simp add: sameTokens_def)
  from stateAfter_existing[OF assms(4) Some] stateAfter_existing[OF assms(5) Some'] assms(1)
  show ?thesis by (simp add: sameTokens_def map_actionName_update)
qed

lemma sameTokens_statesAfter:
  assumes "list_all2 (\<lambda>c d. assetId c = assetId d \<and> assetType c = assetType d) cs ds"
    and "sameTokens s t"
    and "\<forall>c \<in> set cs. accepted c s" and "\<forall>d \<in> set ds. accepted d t"
  shows "sameTokens (statesAfter cs s) (statesAfter ds t)"
  using assms
proof (induction cs ds arbitrary: s t rule: list_all2_induct)
  case Nil
  then show ?case by simp
next
  case (Cons c cs d ds)
  have "sameTokens (stateAfter c s) (stateAfter d t)"
    using Cons.prems Cons.hyps(1) by (intro sameTokens_step) simp_all
  moreover have "\<forall>x \<in> set cs. accepted x (stateAfter c s)" "\<forall>x \<in> set ds. accepted x (stateAfter d t)"
    using Cons.prems by simp_all
  ultimately show ?case using Cons.IH by simp
qed

lemma numbering_statesAfter:
  assumes "\<forall>c \<in> set cs. accepted c s"
  shows "\<exists>kinds.
           map actionAssetType (publishObjs (snd (statesAfter cs s))) =
             map actionAssetType (publishObjs (snd s)) @ kinds \<and>
           map actionName (publishObjs (snd (statesAfter cs s))) =
             map actionName (publishObjs (snd s)) @
               numberAssets (fileAssetCtr (fst s)) (dockerAssetCtr (fst s)) kinds"
  using assms
proof (induction cs arbitrary: s)
  case Nil
  have "map actionAssetType (publishObjs (snd s)) = map actionAssetType (publishObjs (snd s)) @ [] \<and>
        map actionName (publishObjs (snd s)) =
          map actionName (publishObjs (snd s)) @
            numberAssets (fileAssetCtr (fst s)) (dockerAssetCtr (fst s)) []" by simp
  then show ?case unfolding statesAfter_simps by (rule exI)
next
  case (Cons c cs)
  let ?s1 = "stateAfter c s"
  have acc: "accepted c s" and rest: "\<forall>d \<in> set cs. accepted d ?s1" using Cons.prems by simp_all
  from Cons.IH[OF rest] obtain kinds where
    k: "map actionAssetType (publishObjs (snd (statesAfter cs ?s1))) =
          map actionAssetType (publishObjs (snd ?s1)) @ kinds"
       "map actionName (publishObjs (snd (statesAfter cs ?s1))) =
          map actionName (publishObjs (snd ?s1)) @
            numberAssets (fileAssetCtr (fst ?s1)) (dockerAssetCtr (fst ?s1)) kinds"
    by blast
  show ?case
  proof (cases "map_of (publishers (fst s)) (assetId c)")
    case (Some r)
    note st = stateAfter_existing[OF acc Some]
    have "map actionAssetType (publishObjs (snd (statesAfter (c # cs) s))) =
            map actionAssetType (publishObjs (snd s)) @ kinds \<and>
          map actionName (publishObjs (snd (statesAfter (c # cs) s))) =
            map actionName (publishObjs (snd s)) @
              numberAssets (fileAssetCtr (fst s)) (dockerAssetCtr (fst s)) kinds"
      using k by (simp add: st map_actionName_update map_actionAssetType_update)
    then show ?thesis by (rule exI)
  next
    case None
    note st = stateAfter_new[OF acc None]
    have "map actionAssetType (publishObjs (snd (statesAfter (c # cs) s))) =
            map actionAssetType (publishObjs (snd s)) @ (assetType c # kinds) \<and>
          map actionName (publishObjs (snd (statesAfter (c # cs) s))) =
            map actionName (publishObjs (snd s)) @
              numberAssets (fileAssetCtr (fst s)) (dockerAssetCtr (fst s)) (assetType c # kinds)"
      using k by (cases "assetType c") (simp_all add: st)
    then show ?thesis by (rule exI)
  qed
qed

lemma sameTokens_refl: "sameTokens s s"
  by (simp add: sameTokens_def)

text \<open>
  Claim C3. Two runs start from the same state and issue request sequences that agree,
  request by request, on the asset identity and the asset type; manifest paths and
  selectors (what lies behind the source location) may differ at will, as long as every
  request is accepted. Both runs return, they register the same publishers, and the
  publishing actions carry the same names in both. The names of the actions that a run
  creates are the sequence numbers of their asset types, counted per type from the
  coordinator's two counters: they are computed from the types and the counters alone,
  not from the asset identity or the paths.
\<close>

theorem publishAll_stable_names:
  assumes "list_all2 (\<lambda>c d. assetId c = assetId d \<and> assetType c = assetType d) cs ds"
    and "\<forall>c \<in> set cs. accepted c s" and "\<forall>d \<in> set ds. accepted d s"
  shows "\<exists>s1 s2 kinds.
           publishAll cs s = (None, s1) \<and> publishAll ds s = (None, s2) \<and>
           publishers (fst s1) = publishers (fst s2) \<and>
           map actionName (publishObjs (snd s1)) = map actionName (publishObjs (snd s2)) \<and>
           map actionAssetType (publishObjs (snd s1)) =
             map actionAssetType (publishObjs (snd s)) @ kinds \<and>
           map actionName (publishObjs (snd s1)) =
             map actionName (publishObjs (snd s)) @
               numberAssets (fileAssetCtr (fst s)) (dockerAssetCtr (fst s)) kinds"
proof -
  from numbering_statesAfter[OF assms(2)] obtain kinds where
    k: "map actionAssetType (publishObjs (snd (statesAfter cs s))) =
          map actionAssetType (publishObjs (snd s)) @ kinds"
       "map actionName (publishObjs (snd (statesAfter cs s))) =
          map actionName (publishObjs (snd s)) @
            numberAssets (fileAssetCtr (fst s)) (dockerAssetCtr (fst s)) kinds"
    by blast
  have "sameTokens (statesAfter cs s) (statesAfter ds s)"
    using assms sameTokens_refl by (intro sameTokens_statesAfter) simp_all
  with k publishAll_accepted[OF assms(2)] publishAll_accepted[OF assms(3)]
  show ?thesis by (simp add: sameTokens_def)
qed

theorem publishAll_stable_names_witness:
  "\<exists>s1 s2. publishAll exampleRequests freshAssets = (None, s1) \<and>
           publishAll (map movedRequest exampleRequests) freshAssets = (None, s2) \<and>
           map actionName (publishObjs (snd s1)) = map actionName (publishObjs (snd s2))"
proof -
  have "list_all2 (\<lambda>c d. assetId c = assetId d \<and> assetType c = assetType d)
          exampleRequests (map movedRequest exampleRequests)"
    by (simp add: list_all2_map2 list_all2_same)
  moreover have "\<forall>d \<in> set (map movedRequest exampleRequests). accepted d freshAssets" by simp
  ultimately show ?thesis
    using publishAll_stable_names [of exampleRequests "map movedRequest exampleRequests" freshAssets]
      exampleRequests_accepted
    by blast
qed

section \<open>Removal of the empty stage\<close>

lemma indexOf_lower: "- 1 \<le> indexOf xs x"
  by (induction xs) (auto simp: Let_def)

lemma indexOf_splice1:
  "(if indexOf xs x > - 1 then splice1 xs (nat (indexOf xs x)) else xs) = remove1 x xs"
proof (induction xs)
  case Nil
  then show ?case by simp
next
  case (Cons y ys)
  show ?case
  proof (cases "y = x")
    case True
    then show ?thesis by (simp add: splice1_def)
  next
    case False
    show ?thesis
    proof (cases "indexOf ys x > - 1")
      case True
      then have "nat (indexOf ys x + 1) = Suc (nat (indexOf ys x))" by simp
      with True False Cons show ?thesis by (simp add: splice1_def Let_def)
    next
      case no: False
      with False Cons show ?thesis by (simp add: Let_def)
    qed
  qed
qed

lemma removeAssetsStageIfEmpty_eq:
  "removeAssetsStageIfEmpty s =
     (if publishers (fst s) = [] \<and> pipeline (fst s) < length (pipelineObjs (snd s))
      then (fst s, (snd s)\<lparr>pipelineObjs :=
              (pipelineObjs (snd s))[pipeline (fst s) :=
                 remove1 (stage (fst s)) (pipelineObjs (snd s) ! pipeline (fst s))]\<rparr>)
      else s)"
proof (cases s)
  case (Pair this w)
  show ?thesis
  proof (cases "publishers this = [] \<and> pipeline this < length (pipelineObjs w)")
    case True
    have "remove1 (stage this) (pipelineObjs w ! pipeline this) = pipelineObjs w ! pipeline this"
      if "\<not> indexOf (pipelineObjs w ! pipeline this) (stage this) > - 1"
      using that indexOf_splice1[of "pipelineObjs w ! pipeline this" "stage this"] by simp
    moreover have "splice1 (pipelineObjs w ! pipeline this)
                     (nat (indexOf (pipelineObjs w ! pipeline this) (stage this)))
                   = remove1 (stage this) (pipelineObjs w ! pipeline this)"
      if "indexOf (pipelineObjs w ! pipeline this) (stage this) > - 1"
      using that indexOf_splice1[of "pipelineObjs w ! pipeline this" "stage this"] by simp
    ultimately show ?thesis using True Pair
      by (simp add: removeAssetsStageIfEmpty_def deref_def Let_def)
  next
    case False
    with Pair show ?thesis
      by (auto simp: removeAssetsStageIfEmpty_def deref_def Let_def)
  qed
qed







text \<open>The aspect calls \<^verbatim>\<open>removeAssetsStageIfEmpty\<close> once per construct that it visits; a
  second call changes nothing.\<close>

lemma removeAssetsStageIfEmpty_again:
  assumes "distinct (pipelineObjs (snd s) ! pipeline (fst s))"
  shows "removeAssetsStageIfEmpty (removeAssetsStageIfEmpty s) = removeAssetsStageIfEmpty s"
proof (cases "publishers (fst s) = [] \<and> pipeline (fst s) < length (pipelineObjs (snd s))")
  case False
  then have "removeAssetsStageIfEmpty s = s" by (auto simp: removeAssetsStageIfEmpty_eq)
  then show ?thesis by simp
next
  case True
  let ?st = "stage (fst s)" and ?p = "pipeline (fst s)"
  have "?st \<notin> set (remove1 ?st (pipelineObjs (snd s) ! ?p))" using assms by simp
  then have "remove1 ?st (remove1 ?st (pipelineObjs (snd s) ! ?p)) = remove1 ?st (pipelineObjs (snd s) ! ?p)"
    by (simp add: remove1_idem)
  with True show ?thesis by (simp add: removeAssetsStageIfEmpty_eq)
qed

section \<open>Roles\<close>

lemma roles_general:
  assumes "\<forall>c \<in> set cs. accepted c s"
    and "\<forall>k. (assetRoles (fst s) k \<noteq> None) = (k \<in> set seen)"
  shows "roleObjs (snd (statesAfter cs s)) =
           roleObjs (snd s) @ map newRole (firstOccurrences seen (map assetType cs))"
  using assms
proof (induction cs arbitrary: s seen)
  case Nil
  then show ?case by simp
next
  case (Cons c cs)
  let ?s1 = "stateAfter c s"
  have acc: "accepted c s" and rest: "\<forall>d \<in> set cs. accepted d ?s1"
    using Cons.prems(1) by simp_all
  show ?case
  proof (cases "assetType c \<in> set seen")
    case True
    then have known: "assetRoles (fst s) (assetType c) \<noteq> None" using Cons.prems(2) by simp
    have "\<forall>k. (assetRoles (fst ?s1) k \<noteq> None) = (k \<in> set seen)"
      using known Cons.prems(2) by (simp add: stateAfter_roles[OF acc])
    from Cons.IH[OF rest this] known True show ?thesis
      by (simp add: stateAfter_roles[OF acc])
  next
    case False
    have unknown: "assetRoles (fst s) (assetType c) = None"
    proof (rule ccontr)
      assume "assetRoles (fst s) (assetType c) \<noteq> None"
      with Cons.prems(2) have "assetType c \<in> set seen" by blast
      with False show False by simp
    qed
    have "\<forall>k. (assetRoles (fst ?s1) k \<noteq> None) = (k \<in> set (seen @ [assetType c]))"
      using unknown Cons.prems(2) by (simp add: stateAfter_roles[OF acc])
    from Cons.IH[OF rest this] unknown False show ?thesis
      by (simp add: stateAfter_roles[OF acc])
  qed
qed

lemma rolesOk_step:
  assumes "accepted c s" and "rolesOk s"
  shows "rolesOk (stateAfter c s)"
  unfolding rolesOk_def
proof (intro allI impI)
  fix k r assume kr: "assetRoles (fst (stateAfter c s)) k = Some r"
  show "r < length (roleObjs (snd (stateAfter c s))) \<and> roleObjs (snd (stateAfter c s)) ! r = newRole k"
  proof (cases "assetRoles (fst s) (assetType c) = None")
    case False
    then obtain y where "assetRoles (fst s) (assetType c) = Some y" by auto
    with kr assms show ?thesis by (simp add: stateAfter_roles rolesOk_def)
  next
    case True
    show ?thesis
    proof (cases "k = assetType c")
      case True
      with kr \<open>assetRoles (fst s) (assetType c) = None\<close> assms(1) show ?thesis
        by (auto simp: stateAfter_roles nth_append)
    next
      case False
      with kr True assms(1) have "assetRoles (fst s) k = Some r" by (simp add: stateAfter_roles)
      with assms(2) have "r < length (roleObjs (snd s))" "roleObjs (snd s) ! r = newRole k"
        by (simp_all add: rolesOk_def)
      with True assms(1) show ?thesis by (simp add: stateAfter_roles nth_append)
    qed
  qed
qed

lemma known_role_after:
  assumes "accepted c s" and "rolesOk s"
  shows "\<exists>ro. assetRoles (fst (stateAfter c s)) (assetType c) = Some ro \<and>
              ro < length (roleObjs (snd (stateAfter c s))) \<and>
              roleObjs (snd (stateAfter c s)) ! ro = newRole (assetType c)"
proof -
  have "assetRoles (fst (stateAfter c s)) (assetType c) \<noteq> None"
    using assms(1) by (simp add: stateAfter_roles)
  then obtain ro where "assetRoles (fst (stateAfter c s)) (assetType c) = Some ro" by auto
  with rolesOk_step[OF assms] show ?thesis by (auto simp: rolesOk_def)
qed

lemma publishersOk_step:
  assumes acc: "accepted c s" and ro: "rolesOk s" and po: "publishersOk s"
  shows "publishersOk (stateAfter c s)"
proof -
  let ?s1 = "stateAfter c s"
  have roles1: "roleObjs (snd ?s1) = roleObjs (snd s) @
      (if assetRoles (fst s) (assetType c) = None then [newRole (assetType c)] else [])"
    using acc by (rule stateAfter_roles)
  have old: "r < length (publishObjs (snd ?s1)) \<and>
       (\<exists>ro. role (publishObjs (snd ?s1) ! r) = Some ro \<and> ro < length (roleObjs (snd ?s1)) \<and>
             roleObjs (snd ?s1) ! ro = newRole (actionAssetType (publishObjs (snd ?s1) ! r)))"
    if r: "r \<in> snd ` set (publishers (fst s))"
      and objs: "\<And>i. i < length (publishObjs (snd s)) \<Longrightarrow>
                   i < length (publishObjs (snd ?s1)) \<and>
                   role (publishObjs (snd ?s1) ! i) = role (publishObjs (snd s) ! i) \<and>
                   actionAssetType (publishObjs (snd ?s1) ! i) = actionAssetType (publishObjs (snd s) ! i)"
    for r
  proof -
    from po r obtain ro where r1: "r < length (publishObjs (snd s))"
      and r2: "role (publishObjs (snd s) ! r) = Some ro" "ro < length (roleObjs (snd s))"
        "roleObjs (snd s) ! ro = newRole (actionAssetType (publishObjs (snd s) ! r))"
      by (auto simp: publishersOk_def)
    from objs[OF r1] r2 show ?thesis by (auto simp: roles1 nth_append)
  qed
  show ?thesis
  proof (cases "map_of (publishers (fst s)) (assetId c)")
    case (Some r0)
    note ex = stateAfter_existing[OF acc Some]
    have "\<And>i. i < length (publishObjs (snd s)) \<Longrightarrow>
                   i < length (publishObjs (snd ?s1)) \<and>
                   role (publishObjs (snd ?s1) ! i) = role (publishObjs (snd s) ! i) \<and>
                   actionAssetType (publishObjs (snd ?s1) ! i) = actionAssetType (publishObjs (snd s) ! i)"
      by (simp add: ex(5) nth_list_update)
    with old show ?thesis unfolding publishersOk_def ex(1) by blast
  next
    case None
    note nw = stateAfter_new[OF acc None]
    have objs: "\<And>i. i < length (publishObjs (snd s)) \<Longrightarrow>
                   i < length (publishObjs (snd ?s1)) \<and>
                   role (publishObjs (snd ?s1) ! i) = role (publishObjs (snd s) ! i) \<and>
                   actionAssetType (publishObjs (snd ?s1) ! i) = actionAssetType (publishObjs (snd s) ! i)"
      by (simp add: nw(5) nth_append)
    have same: "assetRoles (fst (ensureAssetRole (assetType c) s)) = assetRoles (fst ?s1)"
      using acc by (simp add: stateAfter_roles ensureAssetRole_roles)
    from known_role_after[OF acc ro] obtain rn where
      rn: "assetRoles (fst ?s1) (assetType c) = Some rn" "rn < length (roleObjs (snd ?s1))"
        "roleObjs (snd ?s1) ! rn = newRole (assetType c)" by blast
    have new: "length (publishObjs (snd s)) < length (publishObjs (snd ?s1)) \<and>
       (\<exists>ro. role (publishObjs (snd ?s1) ! length (publishObjs (snd s))) = Some ro \<and>
             ro < length (roleObjs (snd ?s1)) \<and>
             roleObjs (snd ?s1) ! ro =
               newRole (actionAssetType (publishObjs (snd ?s1) ! length (publishObjs (snd s)))))"
      using rn by (simp add: nw(5) same)
    show ?thesis unfolding publishersOk_def nw(1) using old[OF _ objs] new by auto
  qed
qed

lemma invariants_statesAfter:
  assumes "\<forall>c \<in> set cs. accepted c s" and "rolesOk s" and "publishersOk s"
  shows "rolesOk (statesAfter cs s) \<and> publishersOk (statesAfter cs s)"
  using assms
proof (induction cs arbitrary: s)
  case Nil
  then show ?case by simp
next
  case (Cons c cs)
  then have "accepted c s" "\<forall>d \<in> set cs. accepted d (stateAfter c s)" by simp_all
  with Cons.prems Cons.IH[of "stateAfter c s"] rolesOk_step publishersOk_step
  show ?case by simp
qed

lemma assetType_list_short:
  assumes "distinct (ks :: AssetType list)"
  shows "length ks \<le> 2"
proof -
  have "set ks \<subseteq> {FILE, DOCKER_IMAGE}"
  proof
    fix k assume "k \<in> set ks" show "k \<in> {FILE, DOCKER_IMAGE}" by (cases k) simp_all
  qed
  then have "card (set ks) \<le> card {FILE, DOCKER_IMAGE}" by (intro card_mono) simp_all
  with assms show ?thesis by (simp add: distinct_card)
qed

text \<open>
  Claim C8. Start from a coordinator that has neither roles nor publishers, and let every
  request of a sequence pass the path check. Then every call returns, and the role
  objects created by the sequence are one per asset type that was requested, in the order
  of the first request of each type: at most one per type and at most two in all, however
  many assets are published. Every registered publishing action holds the one role object
  of its asset type.
\<close>

theorem publishAll_roles:
  assumes "assetRoles (fst s) = (\<lambda>t. None)" and "publishers (fst s) = []"
    and "\<forall>c \<in> set cs. accepted c s"
  shows "\<exists>s'. publishAll cs s = (None, s') \<and>
           roleObjs (snd s') =
             roleObjs (snd s) @ map newRole (firstOccurrences [] (map assetType cs)) \<and>
           distinct (firstOccurrences [] (map assetType cs)) \<and>
           length (firstOccurrences [] (map assetType cs)) \<le> 2 \<and>
           (\<forall>r \<in> snd ` set (publishers (fst s')).
              \<exists>a ro. deref (publishObjs (snd s')) r = Some a \<and> role a = Some ro \<and>
                deref (roleObjs (snd s')) ro = Some (newRole (actionAssetType a)))"
proof -
  let ?s' = "statesAfter cs s"
  have run: "publishAll cs s = (None, ?s')" using assms(3) by (rule publishAll_accepted)
  have roles: "roleObjs (snd ?s') =
      roleObjs (snd s) @ map newRole (firstOccurrences [] (map assetType cs))"
    using assms(3) by (rule roles_general) (simp add: assms(1))
  have d: "distinct (firstOccurrences [] (map assetType cs))"
    by (rule firstOccurrences_is_distinct)
  have "rolesOk s" "publishersOk s" by (simp_all add: rolesOk_def publishersOk_def assms)
  with invariants_statesAfter[OF assms(3)] have "publishersOk ?s'" by simp
  then have "\<forall>r \<in> snd ` set (publishers (fst ?s')).
              \<exists>a ro. deref (publishObjs (snd ?s')) r = Some a \<and> role a = Some ro \<and>
                deref (roleObjs (snd ?s')) ro = Some (newRole (actionAssetType a))"
    unfolding publishersOk_def deref_def by auto
  with run roles d assetType_list_short[OF d] show ?thesis by blast
qed

theorem publishAll_roles_witness:
  "\<exists>s'. publishAll exampleRequests freshAssets = (None, s') \<and>
        roleObjs (snd s') = [newRole FILE, newRole DOCKER_IMAGE]"
proof -
  have "firstOccurrences [] (map assetType exampleRequests) = [FILE, DOCKER_IMAGE]"
    by (simp add: exampleRequests_def)
  with publishAll_roles [OF freshAssets_fields(1,2) exampleRequests_accepted]
  show ?thesis by auto
qed

section \<open>Stack outputs\<close>

text \<open>The three cases of a call: the unit has its artifact; the unit has none and its
  identity is no inherited name; the unit has none and its identity is an inherited
  name.\<close>

lemma stackOutput_own:
  assumes "map_of (outputArtifacts (fst s)) (outputStackArtifactId out) = Some a"
  shows "stackOutput out s =
     (Inr (length (stackOutputObjs (snd s))), fst s,
      (snd s)\<lparr>stackOutputObjs := stackOutputObjs (snd s) @
         [\<lparr>artifactFile = (a, ''outputs.json''), outputName = logicalId out\<rparr>]\<rparr>)"
  using assms by (cases s) (simp add: stackOutput_def getProperty_def Let_def)

lemma stackOutput_absent:
  assumes "map_of (outputArtifacts (fst s)) (outputStackArtifactId out) = None"
    and "outputStackArtifactId out \<notin> set objectPrototypeMembers"
  shows "stackOutput out s =
     (Inr (length (stackOutputObjs (snd s))),
      (fst s)\<lparr>outputArtifacts := outputArtifacts (fst s) @
         [(outputStackArtifactId out, length (artifactObjs (snd s)))]\<rparr>,
      (snd s)\<lparr>artifactObjs := artifactObjs (snd s) @
         [\<lparr>artifactName = Some (outputArtifactName (outputStackArtifactId out))\<rparr>],
        stackOutputObjs := stackOutputObjs (snd s) @
          [\<lparr>artifactFile = (length (artifactObjs (snd s)), ''outputs.json''),
            outputName = logicalId out\<rparr>]\<rparr>)"
  using assms
  by (cases s) (simp add: stackOutput_def getProperty_def outputArtifactName_def map_add_def Let_def)

lemma stackOutput_inherited:
  assumes "map_of (outputArtifacts (fst s)) (outputStackArtifactId out) = None"
    and "outputStackArtifactId out \<in> set objectPrototypeMembers"
  shows "stackOutput out s = (Inl atPathNotAFunction, s)"
  using assms by (cases s) (simp add: stackOutput_def getProperty_def Let_def)

lemma stackOutput_cases:
  obtains (own) a where "map_of (outputArtifacts (fst s)) (outputStackArtifactId out) = Some a"
  | (absent) "map_of (outputArtifacts (fst s)) (outputStackArtifactId out) = None"
      "outputStackArtifactId out \<notin> set objectPrototypeMembers"
  | (inherited) "map_of (outputArtifacts (fst s)) (outputStackArtifactId out) = None"
      "outputStackArtifactId out \<in> set objectPrototypeMembers"
  by (cases "map_of (outputArtifacts (fst s)) (outputStackArtifactId out)") auto

text \<open>The call returns unless the read finds an inherited member; a stack whose artifact
  id is \<^verbatim>\<open>constructor\<close> makes it throw, and nothing is registered.\<close>

lemma stackOutput_returns_iff:
  "(\<exists>h. fst (stackOutput out s) = Inr h) \<longleftrightarrow>
     getProperty (outputArtifacts (fst s)) (outputStackArtifactId out) \<noteq> Inherited"
  by (cases rule: stackOutput_cases[of s out])
     (simp_all add: stackOutput_own stackOutput_absent stackOutput_inherited getProperty_def)

lemma stackOutput_returns:
  "outputStackArtifactId out \<notin> set objectPrototypeMembers \<Longrightarrow>
     fst (stackOutput out s) = Inr (length (stackOutputObjs (snd s)))"
  by (cases rule: stackOutput_cases[of s out]) (simp_all add: stackOutput_own stackOutput_absent)

lemma stackOutput_handle:
  "fst (stackOutput out s) = Inr h \<Longrightarrow>
     h = length (stackOutputObjs (snd s)) \<and>
     length (stackOutputObjs (snd (snd (stackOutput out s)))) = Suc h"
  by (cases rule: stackOutput_cases[of s out])
     (auto simp: stackOutput_own stackOutput_absent stackOutput_inherited)

lemma stackOutput_registry:
  "map_of (outputArtifacts (fst (snd (stackOutput out s)))) k =
     (case map_of (outputArtifacts (fst s)) k of
        Some a \<Rightarrow> Some a
      | None \<Rightarrow>
          if k = outputStackArtifactId out \<and> k \<notin> set objectPrototypeMembers
          then Some (length (artifactObjs (snd s))) else None)"
  by (cases rule: stackOutput_cases[of s out])
     (auto simp: stackOutput_own stackOutput_absent stackOutput_inherited map_add_def
        split: option.splits)

lemma stackOutput_artifact:
  "fst (stackOutput out s) = Inr h \<Longrightarrow>
     artifactOf (snd (snd (stackOutput out s))) h =
       map_of (outputArtifacts (fst (snd (stackOutput out s)))) (outputStackArtifactId out)"
  by (cases rule: stackOutput_cases[of s out])
     (auto simp: stackOutput_own stackOutput_absent stackOutput_inherited artifactOf_def
        deref_def map_add_def)

lemma artifactOf_kept:
  "h < length (stackOutputObjs (snd s)) \<Longrightarrow>
     artifactOf (snd (snd (stackOutput out s))) h = artifactOf (snd s) h"
  by (cases rule: stackOutput_cases[of s out])
     (simp_all add: stackOutput_own stackOutput_absent stackOutput_inherited artifactOf_def
        deref_def nth_append)

lemma stackOutput_grows:
  "\<exists>new. outputArtifacts (fst (snd (stackOutput out s))) = outputArtifacts (fst s) @ new"
  by (cases rule: stackOutput_cases[of s out])
     (simp_all add: stackOutput_own stackOutput_absent stackOutput_inherited)

lemma stackOutput_wf:
  assumes "outputsWf s"
  shows "outputsWf (snd (stackOutput out s))"
proof (cases rule: stackOutput_cases[of s out])
  case (own a)
  with assms show ?thesis
    by (simp add: outputsWf_def stackOutput_own)
next
  case absent
  then have "outputStackArtifactId out \<notin> fst ` set (outputArtifacts (fst s))"
    by (simp add: map_of_eq_None_iff)
  moreover have "length (artifactObjs (snd s)) \<notin> snd ` set (outputArtifacts (fst s))"
    using assms by (auto simp: outputsWf_def list_all_iff)
  moreover have "list_all (\<lambda>e. snd e < Suc (length (artifactObjs (snd s)))) (outputArtifacts (fst s))"
    using assms by (auto simp: outputsWf_def list_all_iff)
  ultimately show ?thesis using assms absent
    by (simp add: outputsWf_def stackOutput_absent)
next
  case inherited
  with assms show ?thesis
    by (simp add: stackOutput_inherited)
qed

lemma registry_inj:
  assumes "distinct (map snd xs)" and "map_of xs k1 = Some a" and "map_of xs k2 = Some a"
  shows "k1 = k2"
proof -
  from assms(2,3) have "(k1, a) \<in> set xs" "(k2, a) \<in> set xs" by (auto dest: map_of_SomeD)
  with assms(1) show ?thesis by (metis eq_key_imp_eq_value distinct_map inj_onD prod.collapse snd_conv fst_conv)
qed

lemma registry_after:
  "fst (stackOutput out s) = Inr h \<Longrightarrow>
     map_of (outputArtifacts (fst (snd (stackOutput out s)))) (outputStackArtifactId out) \<noteq> None"
  by (cases rule: stackOutput_cases[of s out])
     (auto simp: stackOutput_own stackOutput_absent stackOutput_inherited map_add_def)

lemma registry_kept:
  "map_of (outputArtifacts (fst s)) k = Some a \<Longrightarrow>
     map_of (outputArtifacts (fst (snd (stackOutput out s)))) k = Some a"
  by (simp add: stackOutput_registry)

text \<open>The registry of a new construct is well formed, \<^verbatim>\<open>stackOutput\<close> keeps it so and,
  when it returns, has registered the unit of the output it was asked for.\<close>

lemma newCdkPipeline_outputsWf:
  "newCdkPipeline scope props w = (Inr this, w') \<Longrightarrow> outputsWf (this, w')"
  by (auto simp: newCdkPipeline_def buildStages_def Let_def outputsWf_def
      split: option.splits prod.splits if_splits)

lemma outputsWf_keys: "outputsWf s \<Longrightarrow> distinct (map fst (outputArtifacts (fst s)))"
  by (simp add: outputsWf_def)

lemma stackOutput_requests:
  "fst (stackOutput out s) = Inr h \<Longrightarrow>
     outputStackArtifactId out \<in> fst ` set (outputArtifacts (fst (snd (stackOutput out s))))"
  using registry_after[of out s h] by (auto simp: map_of_eq_None_iff)

lemma freshPipeline_wf: "outputsWf freshPipeline"
  by (simp add: outputsWf_def freshPipeline_def)

lemma stackOutput_constructor:
  "stackOutput (outputOf ''constructor'' ''Url'') freshPipeline = (Inl atPathNotAFunction, freshPipeline)"
  by (rule stackOutput_inherited)
     (simp_all add: freshPipeline_def outputOf_def objectPrototypeMembers_def)

text \<open>
  Claim C6, as amended. Take two outputs whose units are not named like a member of
  \<^verbatim>\<open>Object.prototype\<close>. Two calls of \<^verbatim>\<open>stackOutput\<close> in a row return, and they return
  two different \<^verbatim>\<open>StackOutput\<close> objects, whatever the units. The artifact behind the
  returned object is what is shared: it is the artifact registered under the unit, and
  the two returned objects point to the same artifact exactly when their outputs belong
  to the same unit, so the same unit gets the identical artifact and distinct units get
  distinct artifacts. The registry only grows: a call keeps every entry and adds at most
  one at the end.
\<close>

theorem stackOutput_shares_artifact:
  assumes "outputsWf s"
    and "outputStackArtifactId o1 \<notin> set objectPrototypeMembers"
    and "outputStackArtifactId o2 \<notin> set objectPrototypeMembers"
  shows "\<exists>h1 h2.
           fst (stackOutput o1 s) = Inr h1 \<and>
           fst (stackOutput o2 (snd (stackOutput o1 s))) = Inr h2 \<and>
           h1 \<noteq> h2 \<and>
           artifactOf (snd (snd (stackOutput o2 (snd (stackOutput o1 s))))) h1 \<noteq> None \<and>
           artifactOf (snd (snd (stackOutput o2 (snd (stackOutput o1 s))))) h1 =
             map_of (outputArtifacts (fst (snd (stackOutput o2 (snd (stackOutput o1 s))))))
               (outputStackArtifactId o1) \<and>
           (artifactOf (snd (snd (stackOutput o2 (snd (stackOutput o1 s))))) h1 =
            artifactOf (snd (snd (stackOutput o2 (snd (stackOutput o1 s))))) h2)
             = (outputStackArtifactId o1 = outputStackArtifactId o2) \<and>
           (\<exists>new. outputArtifacts (fst (snd (stackOutput o1 s))) = outputArtifacts (fst s) @ new) \<and>
           (\<exists>new. outputArtifacts (fst (snd (stackOutput o2 (snd (stackOutput o1 s))))) =
                    outputArtifacts (fst (snd (stackOutput o1 s))) @ new)"
proof -
  let ?r1 = "stackOutput o1 s"
  let ?s1 = "snd ?r1"
  let ?r2 = "stackOutput o2 ?s1"
  let ?s2 = "snd ?r2"
  define h1 where "h1 = length (stackOutputObjs (snd s))"
  define h2 where "h2 = length (stackOutputObjs (snd ?s1))"
  have r1: "fst ?r1 = Inr h1" unfolding h1_def using assms(2) by (rule stackOutput_returns)
  have r2: "fst ?r2 = Inr h2" unfolding h2_def using assms(3) by (rule stackOutput_returns)
  have len: "h2 = Suc h1"
    using stackOutput_handle[OF r1] by (simp add: h2_def)
  have a1: "artifactOf (snd ?s2) h1 = map_of (outputArtifacts (fst ?s1)) (outputStackArtifactId o1)"
    using len artifactOf_kept[of h1 ?s1 o2] stackOutput_artifact[OF r1] by (simp add: h2_def)
  obtain a where a: "map_of (outputArtifacts (fst ?s1)) (outputStackArtifactId o1) = Some a"
    using registry_after[OF r1] by auto
  have a1': "map_of (outputArtifacts (fst ?s2)) (outputStackArtifactId o1) = Some a"
    using a by (rule registry_kept)
  have a2: "artifactOf (snd ?s2) h2 = map_of (outputArtifacts (fst ?s2)) (outputStackArtifactId o2)"
    using r2 by (rule stackOutput_artifact)
  have wf2: "outputsWf ?s2" using assms(1) by (intro stackOutput_wf)
  have same: "(artifactOf (snd ?s2) h1 = artifactOf (snd ?s2) h2)
                = (outputStackArtifactId o1 = outputStackArtifactId o2)"
  proof
    assume "artifactOf (snd ?s2) h1 = artifactOf (snd ?s2) h2"
    then have "map_of (outputArtifacts (fst ?s2)) (outputStackArtifactId o2) = Some a"
      using a1 a a2 by simp
    with a1' wf2 show "outputStackArtifactId o1 = outputStackArtifactId o2"
      by (auto simp: outputsWf_def intro: registry_inj)
  next
    assume "outputStackArtifactId o1 = outputStackArtifactId o2"
    then show "artifactOf (snd ?s2) h1 = artifactOf (snd ?s2) h2"
      using a1 a a1' a2 by simp
  qed
  have "h1 \<noteq> h2" using len by simp
  moreover have "artifactOf (snd ?s2) h1 \<noteq> None" using a1 a by simp
  moreover have "artifactOf (snd ?s2) h1 =
      map_of (outputArtifacts (fst ?s2)) (outputStackArtifactId o1)"
    using a1 a a1' by simp
  ultimately show ?thesis
    using r1 r2 same stackOutput_grows[of o1 s] stackOutput_grows[of o2 ?s1] by blast
qed

text \<open>Two requests for unit \<open>A\<close> share the artifact; a request for \<open>A\<close> and one for \<open>B\<close> do
  not.\<close>

theorem stackOutput_shares_artifact_witness:
  "(\<exists>h1 h2.
      fst (stackOutput (outputOf ''A'' ''Url'') freshPipeline) = Inr h1 \<and>
      fst (stackOutput (outputOf ''A'' ''Url'') (snd (stackOutput (outputOf ''A'' ''Url'') freshPipeline))) = Inr h2 \<and>
      h1 \<noteq> h2 \<and>
      artifactOf (snd (snd (stackOutput (outputOf ''A'' ''Url'')
                    (snd (stackOutput (outputOf ''A'' ''Url'') freshPipeline))))) h1 =
      artifactOf (snd (snd (stackOutput (outputOf ''A'' ''Url'')
                    (snd (stackOutput (outputOf ''A'' ''Url'') freshPipeline))))) h2) \<and>
   (\<exists>h1 h2.
      fst (stackOutput (outputOf ''A'' ''Url'') freshPipeline) = Inr h1 \<and>
      fst (stackOutput (outputOf ''B'' ''Url'') (snd (stackOutput (outputOf ''A'' ''Url'') freshPipeline))) = Inr h2 \<and>
      artifactOf (snd (snd (stackOutput (outputOf ''B'' ''Url'')
                    (snd (stackOutput (outputOf ''A'' ''Url'') freshPipeline))))) h1 \<noteq>
      artifactOf (snd (snd (stackOutput (outputOf ''B'' ''Url'')
                    (snd (stackOutput (outputOf ''A'' ''Url'') freshPipeline))))) h2)"
proof -
  have A: "outputStackArtifactId (outputOf ''A'' ''Url'') \<notin> set objectPrototypeMembers"
    and B: "outputStackArtifactId (outputOf ''B'' ''Url'') \<notin> set objectPrototypeMembers"
    by (simp_all add: outputOf_def objectPrototypeMembers_def)
  have ne: "outputStackArtifactId (outputOf ''A'' ''Url'') \<noteq> outputStackArtifactId (outputOf ''B'' ''Url'')"
    by (simp add: outputOf_def)
  show ?thesis
    using stackOutput_shares_artifact [OF freshPipeline_wf A A]
      stackOutput_shares_artifact [OF freshPipeline_wf A B] ne
    by (intro conjI) metis+
qed

text \<open>The claim as stated fails: requested twice for the same output of unit \<open>A\<close>, the
  first call returns object 0 and the second returns object 1.\<close>

theorem stackOutput_fresh_handle:
  "fst (stackOutput (outputOf ''A'' ''Url'') freshPipeline) = Inr 0 \<and>
   fst (stackOutput (outputOf ''A'' ''Url'') (snd (stackOutput (outputOf ''A'' ''Url'') freshPipeline))) = Inr 1 \<and>
   fst (stackOutput (outputOf ''A'' ''Url'') freshPipeline) \<noteq>
   fst (stackOutput (outputOf ''A'' ''Url'') (snd (stackOutput (outputOf ''A'' ''Url'') freshPipeline)))"
proof -
  have A: "outputStackArtifactId (outputOf ''A'' ''Url'') \<notin> set objectPrototypeMembers"
    by (simp add: outputOf_def objectPrototypeMembers_def)
  have r1: "fst (stackOutput (outputOf ''A'' ''Url'') freshPipeline) = Inr 0"
    using stackOutput_returns[OF A, of freshPipeline] by (simp add: freshPipeline_def freshAssets_eq)
  have r2: "fst (stackOutput (outputOf ''A'' ''Url'') (snd (stackOutput (outputOf ''A'' ''Url'') freshPipeline))) = Inr 1"
    using stackOutput_returns[OF A, of "snd (stackOutput (outputOf ''A'' ''Url'') freshPipeline)"]
      stackOutput_handle[OF r1] by simp
  from r1 r2 show ?thesis by simp
qed

end
